theory Spec2Isabelle
  imports Complex_Main
begin

section \<open>Buffers\<close>

text \<open>
  A Node \<open>Buffer\<close> is a list of bytes, each a natural number below 256. A JavaScript
  number is a real here; a number that may be \<open>NaN\<close> is a \<open>real option\<close> with \<open>None\<close>
  for \<open>NaN\<close>. Reading a buffer outside its range (or at an index that is not an integer)
  yields \<open>undefined\<close>, which arithmetic turns into \<open>NaN\<close>; storing \<open>NaN\<close> into a buffer
  stores 0, and a store outside the range is ignored.
\<close>

type_synonym buffer = "nat list"

definition buf_alloc :: "nat \<Rightarrow> nat \<Rightarrow> buffer" where
  "buf_alloc n v = replicate n v"

definition buf_get :: "buffer \<Rightarrow> int \<Rightarrow> nat option" where
  "buf_get buf i = (if 0 \<le> i \<and> i < int (length buf) then Some (buf ! nat i) else None)"

definition buf_store :: "nat option \<Rightarrow> nat" where
  "buf_store v = (case v of None \<Rightarrow> 0 | Some n \<Rightarrow> n mod 256)"

definition js_min :: "nat option \<Rightarrow> nat option \<Rightarrow> nat option" where
  "js_min a b = (case (a, b) of (Some m, Some n) \<Rightarrow> Some (min m n) | _ \<Rightarrow> None)"

definition js_max :: "nat option \<Rightarrow> nat option \<Rightarrow> nat option" where
  "js_max a b = (case (a, b) of (Some m, Some n) \<Rightarrow> Some (max m n) | _ \<Rightarrow> None)"

section \<open>MorphologyEngine: erode, dilate, applyMorphologicalOperations\<close>

text \<open>
  \<open>erode\<close> and \<open>dilate\<close> allocate a zero-filled result and write only the pixels with
  \<open>1 \<le> y < height - 1\<close> and \<open>1 \<le> x < width - 1\<close>; the written value is the minimum
  (maximum) of the mask over the 3 by 3 neighbourhood, scanned \<open>ky\<close> outer, \<open>kx\<close> inner.
\<close>

definition erode_value :: "buffer \<Rightarrow> nat \<Rightarrow> nat \<Rightarrow> nat \<Rightarrow> nat option" where
  "erode_value msk width x y =
     foldl (\<lambda>minValue ky.
        foldl (\<lambda>minValue kx.
           js_min minValue (buf_get msk ((int y + ky) * int width + (int x + kx))))
          minValue [-1, 0, 1])
       (Some 255) [-1, 0, 1]"

definition dilate_value :: "buffer \<Rightarrow> nat \<Rightarrow> nat \<Rightarrow> nat \<Rightarrow> nat option" where
  "dilate_value msk width x y =
     foldl (\<lambda>maxValue ky.
        foldl (\<lambda>maxValue kx.
           js_max maxValue (buf_get msk ((int y + ky) * int width + (int x + kx))))
          maxValue [-1, 0, 1])
       (Some 0) [-1, 0, 1]"

definition erode :: "buffer \<Rightarrow> nat \<Rightarrow> nat \<Rightarrow> buffer" where
  "erode msk width height =
     foldl (\<lambda>result y.
        foldl (\<lambda>result x. result[y * width + x := buf_store (erode_value msk width x y)])
          result [1..<width - 1])
       (buf_alloc (width * height) 0) [1..<height - 1]"

definition dilate :: "buffer \<Rightarrow> nat \<Rightarrow> nat \<Rightarrow> buffer" where
  "dilate msk width height =
     foldl (\<lambda>result y.
        foldl (\<lambda>result x. result[y * width + x := buf_store (dilate_value msk width x y)])
          result [1..<width - 1])
       (buf_alloc (width * height) 0) [1..<height - 1]"

text \<open>The two halves of \<open>applyMorphologicalOperations\<close>, named as its comments name them.\<close>

definition morph_opening :: "buffer \<Rightarrow> nat \<Rightarrow> nat \<Rightarrow> buffer" where
  "morph_opening msk width height = dilate (erode msk width height) width height"

definition morph_closing :: "buffer \<Rightarrow> nat \<Rightarrow> nat \<Rightarrow> buffer" where
  "morph_closing msk width height = erode (dilate msk width height) width height"

definition applyMorphologicalOperations :: "buffer \<Rightarrow> nat \<Rightarrow> nat \<Rightarrow> buffer" where
  "applyMorphologicalOperations msk width height =
     (let eroded = erode msk width height;
          opened = dilate eroded width height;
          dilated = dilate opened width height
      in erode dilated width height)"

section \<open>Row-major raster loops\<close>

text \<open>
  Both filters are the same pair of nested loops around a per-pixel value; the lemmas
  below describe such a loop pointwise.
\<close>

definition raster_fill :: "(nat \<Rightarrow> nat \<Rightarrow> nat) \<Rightarrow> nat \<Rightarrow> nat \<Rightarrow> buffer" where
  "raster_fill g width height =
     foldl (\<lambda>result y. foldl (\<lambda>result x. result[y * width + x := g x y]) result [1..<width - 1])
       (buf_alloc (width * height) 0) [1..<height - 1]"

lemma erode_raster: "erode msk width height =
    raster_fill (\<lambda>x y. buf_store (erode_value msk width x y)) width height"
  by (simp add: erode_def raster_fill_def)

lemma dilate_raster: "dilate msk width height =
    raster_fill (\<lambda>x y. buf_store (dilate_value msk width x y)) width height"
  by (simp add: dilate_def raster_fill_def)

lemma row_loop_length:
  "length (foldl (\<lambda>result x. result[f x := g x]) res xs) = length res"
  by (induction xs arbitrary: res) simp_all

lemma row_loop_other:
  "\<forall>x \<in> set xs. f x \<noteq> i \<Longrightarrow> foldl (\<lambda>result x. result[f x := g x]) res xs ! i = res ! i"
  by (induction xs arbitrary: res) simp_all

lemma row_loop_hit:
  assumes "x \<in> set xs" and "inj_on f (set xs)" and "f x < length res"
  shows "foldl (\<lambda>result x. result[f x := g x]) res xs ! f x = g x"
  using assms
proof (induction xs arbitrary: res)
  case Nil
  then show ?case by simp
next
  case (Cons a xs)
  show ?case
  proof (cases "x \<in> set xs")
    case True
    with Cons show ?thesis by (simp add: inj_on_def)
  next
    case False
    with Cons.prems have ax: "a = x" by simp
    have "\<forall>z \<in> set xs. f z \<noteq> f x"
      using Cons.prems(2) False ax by (auto simp: inj_on_def)
    then have "foldl (\<lambda>result x. result[f x := g x]) (res[f x := g x]) xs ! f x
        = (res[f x := g x]) ! f x"
      by (rule row_loop_other)
    with Cons.prems(3) ax show ?thesis by simp
  qed
qed

lemma raster_rows_length:
  "length (foldl (\<lambda>result y. foldl (\<lambda>result x. result[y * width + x := g x y]) result xs)
      res ys) = length res"
  by (induction ys arbitrary: res) (simp_all add: row_loop_length)

lemma raster_rows_other:
  "\<forall>y \<in> set ys. \<forall>x \<in> set xs. y * width + x \<noteq> i \<Longrightarrow>
   foldl (\<lambda>result y. foldl (\<lambda>result x. result[y * width + x := g x y]) result xs) res ys ! i
     = res ! i"
proof (induction ys arbitrary: res)
  case Nil
  then show ?case by simp
next
  case (Cons y ys)
  have "foldl (\<lambda>result x. result[y * width + x := g x y]) res xs ! i = res ! i"
    using Cons.prems by (intro row_loop_other) simp
  with Cons show ?case by simp
qed

lemma raster_rows_hit:
  assumes "y \<in> set ys" and "x \<in> set xs" and "distinct ys" and "distinct xs"
    and "\<forall>x \<in> set xs. x < width" and "y * width + x < length res"
  shows "foldl (\<lambda>result y. foldl (\<lambda>result x. result[y * width + x := g x y]) result xs) res ys
      ! (y * width + x) = g x y"
  using assms
proof (induction ys arbitrary: res)
  case Nil
  then show ?case by simp
next
  case (Cons a ys)
  let ?row = "\<lambda>res y. foldl (\<lambda>result x. result[y * width + x := g x y]) res xs"
  show ?case
  proof (cases "y \<in> set ys")
    case True
    with Cons show ?thesis by (simp add: row_loop_length)
  next
    case False
    with Cons.prems have ay: "a = y" by simp
    have other: "\<forall>y' \<in> set ys. \<forall>x' \<in> set xs. y' * width + x' \<noteq> y * width + x"
    proof (intro ballI notI)
      fix y' x' assume y': "y' \<in> set ys" and x': "x' \<in> set xs"
        and eq: "y' * width + x' = y * width + x"
      have "x' < width" "x < width" using Cons.prems(2,5) x' by auto
      have "(y' * width + x') div width = (y * width + x) div width" using eq by simp
      with \<open>x' < width\<close> \<open>x < width\<close> have "y' = y" by simp
      with y' False show False by simp
    qed
    have inj: "inj_on (\<lambda>x. y * width + x) (set xs)" by (simp add: inj_on_def)
    have "?row res y ! (y * width + x) = g x y"
      using row_loop_hit [where f = "\<lambda>x. y * width + x" and g = "\<lambda>x. g x y", OF Cons.prems(2) inj]
        Cons.prems(6) by simp
    moreover have "foldl ?row (?row res y) ys ! (y * width + x) = ?row res y ! (y * width + x)"
      using other by (rule raster_rows_other)
    ultimately show ?thesis using ay by simp
  qed
qed

lemma raster_fill_length: "length (raster_fill g width height) = width * height"
  by (simp add: raster_fill_def raster_rows_length buf_alloc_def)

lemma raster_fill_border:
  assumes "x < width" and "y < height"
    and "x = 0 \<or> x = width - 1 \<or> y = 0 \<or> y = height - 1"
  shows "raster_fill g width height ! (y * width + x) = 0"
proof -
  have "\<forall>y' \<in> set [1..<height - 1]. \<forall>x' \<in> set [1..<width - 1].
          y' * width + x' \<noteq> y * width + x"
  proof (intro ballI notI)
    fix y' x' assume y': "y' \<in> set [1..<height - 1]" and x': "x' \<in> set [1..<width - 1]"
      and eq: "y' * width + x' = y * width + x"
    have lt: "x' < width" using x' by auto
    have "(y' * width + x') div width = (y * width + x) div width" using eq by simp
    then have yy: "y' = y" using lt assms(1) by simp
    with eq have "x' = x" by simp
    with yy y' x' assms(3) show False by auto
  qed
  then have "raster_fill g width height ! (y * width + x)
      = buf_alloc (width * height) 0 ! (y * width + x)"
    unfolding raster_fill_def by (rule raster_rows_other)
  moreover have "y * width + x < width * height"
  proof -
    have "y * width + x < y * width + width" using assms(1) by simp
    also have "\<dots> = (Suc y) * width" by simp
    also have "\<dots> \<le> height * width" using assms(2) by (intro mult_le_mono1) simp
    finally show ?thesis by (simp add: mult.commute)
  qed
  ultimately show ?thesis by (simp add: buf_alloc_def)
qed

lemma raster_fill_interior:
  assumes "1 \<le> x" and "x + 1 < width" and "1 \<le> y" and "y + 1 < height"
  shows "raster_fill g width height ! (y * width + x) = g x y"
proof -
  have "y * width + x < y * width + width" using assms(2) by simp
  also have "\<dots> = (Suc y) * width" by simp
  also have "\<dots> \<le> height * width" using assms(4) by (intro mult_le_mono1) simp
  finally have "y * width + x < length (buf_alloc (width * height) 0)"
    by (simp add: mult.commute buf_alloc_def)
  then show ?thesis
    unfolding raster_fill_def
    using assms by (intro raster_rows_hit) auto
qed

section \<open>Border frame of the morphological filters\<close>

text \<open>
  Claim C10. For a msk of a width by height image, the results of \<open>erode\<close> and of
  \<open>dilate\<close> are 0 at every border pixel (row 0, row height - 1, column 0, column
  width - 1) whatever the input msk holds, and so is the cleaned msk returned by
  \<open>applyMorphologicalOperations\<close>: its outer frame is fully transparent.
\<close>

theorem morphology_border_zero:
  assumes "2 \<le> width" and "2 \<le> height" and "x < width" and "y < height"
    and "x = 0 \<or> x = width - 1 \<or> y = 0 \<or> y = height - 1"
  shows "erode msk width height ! (y * width + x) = 0
       \<and> dilate msk width height ! (y * width + x) = 0
       \<and> applyMorphologicalOperations msk width height ! (y * width + x) = 0
       \<and> length (applyMorphologicalOperations msk width height) = width * height"
  using assms(3-5)
  by (simp add: applyMorphologicalOperations_def Let_def erode_raster dilate_raster
      raster_fill_border raster_fill_length)

theorem morphology_border_zero_witness:
  "(2::nat) \<le> 3 \<and> (0::nat) < 3
   \<and> erode (replicate 9 255) 3 3 ! (0 * 3 + 0) = 0
   \<and> dilate (replicate 9 255) 3 3 ! (0 * 3 + 0) = 0
   \<and> applyMorphologicalOperations (replicate 9 255) 3 3 ! (0 * 3 + 0) = 0
   \<and> length (applyMorphologicalOperations (replicate 9 255) 3 3) = 3 * 3"
  using morphology_border_zero [of 3 3 0 0 "replicate 9 255"] by simp

section \<open>Opening and closing on single-pixel defects\<close>

text \<open>
  The nine offsets \<open>(ky, kx)\<close> in the order the filters scan them, and the nine mask
  reads of one pixel's neighbourhood.
\<close>


definition offsets :: "(int \<times> int) list" where
  "offsets = [(-1, -1), (-1, 0), (-1, 1), (0, -1), (0, 0), (0, 1), (1, -1), (1, 0), (1, 1)]"

definition neighbourhood :: "buffer \<Rightarrow> nat \<Rightarrow> nat \<Rightarrow> nat \<Rightarrow> nat option list" where
  "neighbourhood msk width x y =
     map (\<lambda>(ky, kx). buf_get msk ((int y + ky) * int width + (int x + kx))) offsets"

lemma erode_value_nbhd:
  "erode_value msk width x y = foldl js_min (Some 255) (neighbourhood msk width x y)"
  by (simp add: erode_value_def neighbourhood_def offsets_def)

lemma dilate_value_nbhd:
  "dilate_value msk width x y = foldl js_max (Some 0) (neighbourhood msk width x y)"
  by (simp add: dilate_value_def neighbourhood_def offsets_def)

lemma offsets_range: "(ky, kx) \<in> set offsets \<Longrightarrow> - 1 \<le> ky \<and> ky \<le> 1 \<and> - 1 \<le> kx \<and> kx \<le> 1"
  by (auto simp: offsets_def)

lemma offsets_mem: "- 1 \<le> ky \<Longrightarrow> ky \<le> 1 \<Longrightarrow> - 1 \<le> kx \<Longrightarrow> kx \<le> 1 \<Longrightarrow> (ky, kx) \<in> set offsets"
proof -
  assume "- 1 \<le> ky" "ky \<le> 1" "- 1 \<le> kx" "kx \<le> 1"
  then have "(ky = -1 \<or> ky = 0 \<or> ky = 1) \<and> (kx = -1 \<or> kx = 0 \<or> kx = 1)" by arith
  then show ?thesis by (auto simp: offsets_def)
qed

lemma index_bound: "x < width \<Longrightarrow> y < height \<Longrightarrow> y * width + x < width * (height::nat)"
proof -
  assume "x < width" "y < height"
  then have "y * width + x < (Suc y) * width" by simp
  also have "\<dots> \<le> height * width" using \<open>y < height\<close> by (intro mult_le_mono1) simp
  finally show ?thesis by (simp add: mult.commute)
qed

lemma raster_fill_get:
  assumes "0 \<le> xx" "xx < int width" "0 \<le> yy" "yy < int height"
  shows "buf_get (raster_fill g width height) (yy * int width + xx)
     = Some (if 1 \<le> xx \<and> xx + 1 < int width \<and> 1 \<le> yy \<and> yy + 1 < int height
             then g (nat xx) (nat yy) else 0)"
proof -
  define x y where "x = nat xx" and "y = nat yy"
  have xy: "xx = int x" "yy = int y" "x < width" "y < height" using assms by (auto simp: x_def y_def)
  have idx: "yy * int width + xx = int (y * width + x)" by (simp add: xy)
  have lt: "y * width + x < width * height" using xy by (intro index_bound)
  have get: "buf_get (raster_fill g width height) (yy * int width + xx)
      = Some (raster_fill g width height ! (y * width + x))"
    unfolding idx buf_get_def using lt by (simp add: raster_fill_length del: of_nat_add of_nat_mult)
  show ?thesis
  proof (cases "1 \<le> x \<and> x + 1 < width \<and> 1 \<le> y \<and> y + 1 < height")
    case True
    then show ?thesis unfolding get using xy by (simp add: raster_fill_interior)
  next
    case False
    then have "x = 0 \<or> x = width - 1 \<or> y = 0 \<or> y = height - 1" using xy by arith
    then show ?thesis unfolding get using xy False
      by (auto simp add: raster_fill_border)
  qed
qed

lemma single_pixel_get:
  assumes "0 \<le> xx" "xx < int width" "0 \<le> yy" "yy < int height" "px < width" "py < height"
  shows "buf_get ((replicate (width * height) a)[py * width + px := b]) (yy * int width + xx)
     = Some (if xx = int px \<and> yy = int py then b else a)"
proof -
  define x y where "x = nat xx" and "y = nat yy"
  have xy: "xx = int x" "yy = int y" "x < width" "y < height" using assms by (auto simp: x_def y_def)
  have idx: "yy * int width + xx = int (y * width + x)" by (simp add: xy)
  have lt: "y * width + x < width * height" using xy by (intro index_bound)
  have plt: "py * width + px < width * height" using assms by (intro index_bound)
  have eq: "py * width + px = y * width + x \<longleftrightarrow> px = x \<and> py = y"
  proof
    assume e: "py * width + px = y * width + x"
    then have "(py * width + px) div width = (y * width + x) div width" by simp
    then have "py = y" using assms(5) xy by simp
    with e show "px = x \<and> py = y" by simp
  qed simp
  show ?thesis
    unfolding idx buf_get_def using lt plt eq xy
    by (auto simp add: nth_list_update simp del: of_nat_add of_nat_mult)
qed

lemma foldl_js_min_all:
  "\<forall>v \<in> set vs. v = Some a \<Longrightarrow> foldl js_min (Some a) vs = Some a"
  by (induction vs) (simp_all add: js_min_def)

lemma foldl_js_max_all:
  "\<forall>v \<in> set vs. v = Some a \<Longrightarrow> foldl js_max (Some a) vs = Some a"
  by (induction vs) (simp_all add: js_max_def)

lemma foldl_js_min_zero:
  "\<forall>v \<in> set vs. \<exists>n. v = Some n \<Longrightarrow> a = 0 \<or> Some 0 \<in> set vs \<Longrightarrow> foldl js_min (Some a) vs = Some 0"
proof (induction vs arbitrary: a)
  case Nil then show ?case by simp
next
  case (Cons v vs)
  then obtain n where v: "v = Some n" by auto
  have "min a n = 0 \<or> Some 0 \<in> set vs" using Cons.prems(2) v by auto
  with Cons.IH [of "min a n"] Cons.prems(1) v show ?case by (simp add: js_min_def)
qed

lemma foldl_js_max_top:
  "\<forall>v \<in> set vs. \<exists>n. v = Some n \<and> n \<le> t \<Longrightarrow> a \<le> t \<Longrightarrow> a = t \<or> Some t \<in> set vs \<Longrightarrow>
   foldl js_max (Some a) vs = Some t"
proof (induction vs arbitrary: a)
  case Nil then show ?case by simp
next
  case (Cons v vs)
  then obtain n where v: "v = Some n" "n \<le> t" by auto
  have "max a n = t \<or> Some t \<in> set vs" using Cons.prems(2,3) v by auto
  moreover have "max a n \<le> t" using Cons.prems(2) v by simp
  ultimately show ?case using Cons.IH [of "max a n"] Cons.prems(1) v by (simp add: js_max_def)
qed


lemma nbhd_elem:
  "v \<in> set (neighbourhood msk width x y) \<longleftrightarrow>
   (\<exists>ky kx. (ky, kx) \<in> set offsets \<and> v = buf_get msk ((int y + ky) * int width + (int x + kx)))"
  by (auto simp: neighbourhood_def)

lemma dilate_hole_interior:
  assumes "1 \<le> x" "x + 1 < width" "1 \<le> y" "y + 1 < height" "px < width" "py < height"
  shows "dilate_value ((replicate (width * height) 255)[py * width + px := 0]) width x y = Some 255"
proof -
  let ?m = "(replicate (width * height) 255)[py * width + px := 0]"
  have val: "buf_get ?m ((int y + ky) * int width + (int x + kx))
      = Some (if int x + kx = int px \<and> int y + ky = int py then 0 else 255)"
    if "(ky, kx) \<in> set offsets" for ky kx
    using offsets_range [OF that] assms by (intro single_pixel_get) auto
  have all: "\<forall>v \<in> set (neighbourhood ?m width x y). \<exists>n. v = Some n \<and> n \<le> 255"
    by (auto simp: nbhd_elem val)
  have "(int x + (-1) = int px \<and> int y + (-1) = int py) \<or> \<not> (int x + (-1) = int px \<and> int y + (-1) = int py)"
    by blast
  then have "Some 255 \<in> set (neighbourhood ?m width x y)"
  proof
    assume "int x + (-1) = int px \<and> int y + (-1) = int py"
    then have "\<not> (int x + 1 = int px \<and> int y + 1 = int py)" by arith
    then have "buf_get ?m ((int y + 1) * int width + (int x + 1)) = Some 255"
      using val [of 1 1] by (simp add: offsets_def)
    then show ?thesis unfolding nbhd_elem
      by (intro exI [of _ 1] conjI) (auto simp: offsets_def)
  next
    assume "\<not> (int x + (-1) = int px \<and> int y + (-1) = int py)"
    then have "buf_get ?m ((int y + (-1)) * int width + (int x + (-1))) = Some 255"
      using val [of "-1" "-1"] by (simp add: offsets_def)
    then show ?thesis unfolding nbhd_elem
      by (intro exI [of _ "-1"] conjI) (auto simp: offsets_def)
  qed
  with all show ?thesis
    unfolding dilate_value_nbhd by (intro foldl_js_max_top) auto
qed

lemma erode_speck_interior:
  assumes "1 \<le> x" "x + 1 < width" "1 \<le> y" "y + 1 < height" "px < width" "py < height"
  shows "erode_value ((replicate (width * height) 0)[py * width + px := 255]) width x y = Some 0"
proof -
  let ?m = "(replicate (width * height) 0)[py * width + px := 255]"
  have val: "buf_get ?m ((int y + ky) * int width + (int x + kx))
      = Some (if int x + kx = int px \<and> int y + ky = int py then 255 else 0)"
    if "(ky, kx) \<in> set offsets" for ky kx
    using offsets_range [OF that] assms by (intro single_pixel_get) auto
  have all: "\<forall>v \<in> set (neighbourhood ?m width x y). \<exists>n. v = Some n"
    by (auto simp: nbhd_elem val)
  have "(int x + (-1) = int px \<and> int y + (-1) = int py) \<or> \<not> (int x + (-1) = int px \<and> int y + (-1) = int py)"
    by blast
  then have "Some 0 \<in> set (neighbourhood ?m width x y)"
  proof
    assume "int x + (-1) = int px \<and> int y + (-1) = int py"
    then have "\<not> (int x + 1 = int px \<and> int y + 1 = int py)" by arith
    then have "buf_get ?m ((int y + 1) * int width + (int x + 1)) = Some 0"
      using val [of 1 1] by (simp add: offsets_def)
    then show ?thesis unfolding nbhd_elem
      by (intro exI [of _ 1] conjI) (auto simp: offsets_def)
  next
    assume "\<not> (int x + (-1) = int px \<and> int y + (-1) = int py)"
    then have "buf_get ?m ((int y + (-1)) * int width + (int x + (-1))) = Some 0"
      using val [of "-1" "-1"] by (simp add: offsets_def)
    then show ?thesis unfolding nbhd_elem
      by (intro exI [of _ "-1"] conjI) (auto simp: offsets_def)
  qed
  with all show ?thesis
    unfolding erode_value_nbhd by (intro foldl_js_min_zero) auto
qed


lemma raster_fill_zero:
  assumes "\<And>x y. 1 \<le> x \<Longrightarrow> x + 1 < width \<Longrightarrow> 1 \<le> y \<Longrightarrow> y + 1 < height \<Longrightarrow> g x y = 0"
  shows "raster_fill g width height = replicate (width * height) 0"
proof (rule nth_equalityI)
  show "length (raster_fill g width height) = length (replicate (width * height) (0::nat))"
    by (simp add: raster_fill_length)
next
  fix i assume "i < length (raster_fill g width height)"
  then have i: "i < width * height" by (simp add: raster_fill_length)
  then have pos: "0 < width" by (cases width) simp_all
  define x y where "x = i mod width" and "y = i div width"
  have x: "x < width" unfolding x_def using pos by simp
  have y: "y < height" unfolding y_def using i by (simp add: less_mult_imp_div_less mult.commute)
  have idx: "i = y * width + x" unfolding x_def y_def by simp
  have "raster_fill g width height ! (y * width + x) = 0"
  proof (cases "1 \<le> x \<and> x + 1 < width \<and> 1 \<le> y \<and> y + 1 < height")
    case True
    then show ?thesis by (simp add: raster_fill_interior assms)
  next
    case False
    then have "x = 0 \<or> x = width - 1 \<or> y = 0 \<or> y = height - 1" using x y by arith
    then show ?thesis using x y by (intro raster_fill_border)
  qed
  then show "raster_fill g width height ! i = replicate (width * height) 0 ! i"
    using i by (simp add: idx)
qed

lemma dilate_background_interior:
  assumes "1 \<le> x" "x + 1 < width" "1 \<le> y" "y + 1 < height"
  shows "dilate_value (replicate (width * height) 0) width x y = Some 0"
proof -
  have val: "buf_get (replicate (width * height) 0) ((int y + ky) * int width + (int x + kx)) = Some 0"
    if "(ky, kx) \<in> set offsets" for ky kx
  proof -
    note r = offsets_range [OF that]
    define x' y' where "x' = nat (int x + kx)" and "y' = nat (int y + ky)"
    have xy: "int x + kx = int x'" "int y + ky = int y'" "x' < width" "y' < height"
      using r assms by (auto simp: x'_def y'_def)
    have lt: "y' * width + x' < width * height" using xy by (intro index_bound)
    have "(int y + ky) * int width + (int x + kx) = int (y' * width + x')" by (simp add: xy)
    then show ?thesis
      unfolding buf_get_def using lt by (simp del: of_nat_add of_nat_mult)
  qed
  show ?thesis
    unfolding dilate_value_nbhd by (intro foldl_js_max_all) (auto simp: nbhd_elem val)
qed

lemma opening_speck:
  assumes "px < width" and "py < height"
  shows "morph_opening ((replicate (width * height) 0)[py * width + px := 255]) width height
       = replicate (width * height) 0"
proof -
  let ?speck = "(replicate (width * height) 0)[py * width + px := 255]"
  have "erode ?speck width height = replicate (width * height) 0"
    unfolding erode_raster
    by (rule raster_fill_zero) (simp add: erode_speck_interior assms buf_store_def)
  moreover have "dilate (replicate (width * height) 0) width height = replicate (width * height) 0"
    unfolding dilate_raster
    by (rule raster_fill_zero) (simp add: dilate_background_interior buf_store_def)
  ultimately show ?thesis by (simp add: morph_opening_def)
qed


text \<open>
  Claim C8. As stated (opening removes an isolated background pixel, closing fills an
  isolated foreground pixel) the claim fails: the minimum filter runs first in the opening,
  so an isolated 0 pixel stays 0, and the maximum filter runs first in the closing, so an
  isolated 255 pixel stays 255. What the filters do is the converse. The closing (dilate,
  then erode) sets an isolated background pixel surrounded by foreground back to 255 when
  the pixel is at least two pixels away from every border. The opening (erode, then dilate)
  sets an isolated foreground pixel inside a background region to 0 wherever the pixel lies
  in the image: the opened mask is all background.
\<close>

theorem closing_fills_hole_opening_removes_speck:
  assumes "px < width" and "py < height"
  shows "(2 \<le> px \<and> px + 2 < width \<and> 2 \<le> py \<and> py + 2 < height \<longrightarrow>
            morph_closing ((replicate (width * height) 255)[py * width + px := 0]) width height
              ! (py * width + px) = 255)
       \<and> morph_opening ((replicate (width * height) 0)[py * width + px := 255]) width height
           ! (py * width + px) = 0
       \<and> morph_opening ((replicate (width * height) 0)[py * width + px := 255]) width height
           = replicate (width * height) 0"
proof (intro conjI impI)
  assume far: "2 \<le> px \<and> px + 2 < width \<and> 2 \<le> py \<and> py + 2 < height"
  let ?hole = "(replicate (width * height) 255)[py * width + px := 0]"
  let ?g = "\<lambda>x y. buf_store (dilate_value ?hole width x y)"
  have inner: "buf_get (raster_fill ?g width height) ((int py + ky) * int width + (int px + kx))
      = Some 255" if "(ky, kx) \<in> set offsets" for ky kx
  proof -
    note r = offsets_range [OF that]
    have "buf_get (raster_fill ?g width height) ((int py + ky) * int width + (int px + kx))
      = Some (?g (nat (int px + kx)) (nat (int py + ky)))"
      using r far by (subst raster_fill_get) auto
    also have "dilate_value ?hole width (nat (int px + kx)) (nat (int py + ky)) = Some 255"
      using r far by (intro dilate_hole_interior) auto
    finally show ?thesis by (simp add: buf_store_def)
  qed
  have "erode_value (raster_fill ?g width height) width px py = Some 255"
    unfolding erode_value_nbhd by (intro foldl_js_min_all) (auto simp: nbhd_elem inner)
  then show "morph_closing ?hole width height ! (py * width + px) = 255"
    using far
    by (simp add: morph_closing_def erode_raster dilate_raster raster_fill_interior buf_store_def)
next
  have lt: "py * width + px < width * height" using assms by (intro index_bound)
  show "morph_opening ((replicate (width * height) 0)[py * width + px := 255]) width height
           ! (py * width + px) = 0"
    unfolding opening_speck [OF assms] using lt by simp
next
  show "morph_opening ((replicate (width * height) 0)[py * width + px := 255]) width height
           = replicate (width * height) 0"
    by (rule opening_speck [OF assms])
qed

theorem closing_fills_hole_opening_removes_speck_witness:
  "(3::nat) < 7 \<and> (2::nat) \<le> 3 \<and> (3::nat) + 2 < 7
   \<and> morph_closing ((replicate (7 * 7) 255)[3 * 7 + 3 := 0]) 7 7 ! (3 * 7 + 3) = 255
   \<and> morph_opening ((replicate (7 * 7) 0)[3 * 7 + 3 := 255]) 7 7 ! (3 * 7 + 3) = 0
   \<and> morph_opening ((replicate (7 * 7) 0)[0 * 7 + 0 := 255]) 7 7 ! (0 * 7 + 0) = 0
   \<and> morph_opening ((replicate (7 * 7) 0)[0 * 7 + 0 := 255]) 7 7 = replicate (7 * 7) 0"
  using closing_fills_hole_opening_removes_speck [of 3 7 3 7]
    closing_fills_hole_opening_removes_speck [of 0 7 0 7]
  by simp

lemma erode_hole_near:
  assumes "1 \<le> x" "x + 1 < width" "1 \<le> y" "y + 1 < height" "px < width" "py < height"
    and "int x - 1 \<le> int px" "int px \<le> int x + 1" "int y - 1 \<le> int py" "int py \<le> int y + 1"
  shows "erode_value ((replicate (width * height) 255)[py * width + px := 0]) width x y = Some 0"
proof -
  let ?m = "(replicate (width * height) 255)[py * width + px := 0]"
  have val: "buf_get ?m ((int y + ky) * int width + (int x + kx))
      = Some (if int x + kx = int px \<and> int y + ky = int py then 0 else 255)"
    if "(ky, kx) \<in> set offsets" for ky kx
    using offsets_range [OF that] assms(1-6) by (intro single_pixel_get) auto
  have all: "\<forall>v \<in> set (neighbourhood ?m width x y). \<exists>n. v = Some n"
    by (auto simp: nbhd_elem val)
  have mem: "(int py - int y, int px - int x) \<in> set offsets"
    using assms(7-10) by (intro offsets_mem) auto
  have "buf_get ?m ((int y + (int py - int y)) * int width + (int x + (int px - int x))) = Some 0"
    using val [OF mem] by simp
  then have "Some 0 \<in> set (neighbourhood ?m width x y)"
    unfolding nbhd_elem using mem by (intro exI [of _ "int py - int y"] exI [of _ "int px - int x"]) simp
  with all show ?thesis
    unfolding erode_value_nbhd by (intro foldl_js_min_zero) auto
qed

lemma dilate_speck_near:
  assumes "1 \<le> x" "x + 1 < width" "1 \<le> y" "y + 1 < height" "px < width" "py < height"
    and "int x - 1 \<le> int px" "int px \<le> int x + 1" "int y - 1 \<le> int py" "int py \<le> int y + 1"
  shows "dilate_value ((replicate (width * height) 0)[py * width + px := 255]) width x y = Some 255"
proof -
  let ?m = "(replicate (width * height) 0)[py * width + px := 255]"
  have val: "buf_get ?m ((int y + ky) * int width + (int x + kx))
      = Some (if int x + kx = int px \<and> int y + ky = int py then 255 else 0)"
    if "(ky, kx) \<in> set offsets" for ky kx
    using offsets_range [OF that] assms(1-6) by (intro single_pixel_get) auto
  have all: "\<forall>v \<in> set (neighbourhood ?m width x y). \<exists>n. v = Some n \<and> n \<le> 255"
    by (auto simp: nbhd_elem val)
  have mem: "(int py - int y, int px - int x) \<in> set offsets"
    using assms(7-10) by (intro offsets_mem) auto
  have "buf_get ?m ((int y + (int py - int y)) * int width + (int x + (int px - int x))) = Some 255"
    using val [OF mem] by simp
  then have "Some 255 \<in> set (neighbourhood ?m width x y)"
    unfolding nbhd_elem using mem by (intro exI [of _ "int py - int y"] exI [of _ "int px - int x"]) simp
  with all show ?thesis
    unfolding dilate_value_nbhd by (intro foldl_js_max_top) auto
qed

lemma defect_survives:
  assumes "2 \<le> px" and "px + 2 < width" and "2 \<le> py" and "py + 2 < height"
  shows "morph_opening ((replicate (width * height) 255)[py * width + px := 0]) width height
           ! (py * width + px) = 0
       \<and> morph_closing ((replicate (width * height) 0)[py * width + px := 255]) width height
           ! (py * width + px) = 255"
proof
  let ?hole = "(replicate (width * height) 255)[py * width + px := 0]"
  let ?g = "\<lambda>x y. buf_store (erode_value ?hole width x y)"
  have inner: "buf_get (raster_fill ?g width height) ((int py + ky) * int width + (int px + kx))
      = Some 0" if "(ky, kx) \<in> set offsets" for ky kx
  proof -
    note r = offsets_range [OF that]
    have "buf_get (raster_fill ?g width height) ((int py + ky) * int width + (int px + kx))
      = Some (?g (nat (int px + kx)) (nat (int py + ky)))"
      using r assms by (subst raster_fill_get) auto
    also have "erode_value ?hole width (nat (int px + kx)) (nat (int py + ky)) = Some 0"
      using r assms by (intro erode_hole_near) auto
    finally show ?thesis by (simp add: buf_store_def)
  qed
  have "dilate_value (raster_fill ?g width height) width px py = Some 0"
    unfolding dilate_value_nbhd by (intro foldl_js_max_all) (auto simp: nbhd_elem inner)
  then show "morph_opening ?hole width height ! (py * width + px) = 0"
    using assms
    by (simp add: morph_opening_def erode_raster dilate_raster raster_fill_interior buf_store_def)
next
  let ?speck = "(replicate (width * height) 0)[py * width + px := 255]"
  let ?g = "\<lambda>x y. buf_store (dilate_value ?speck width x y)"
  have inner: "buf_get (raster_fill ?g width height) ((int py + ky) * int width + (int px + kx))
      = Some 255" if "(ky, kx) \<in> set offsets" for ky kx
  proof -
    note r = offsets_range [OF that]
    have "buf_get (raster_fill ?g width height) ((int py + ky) * int width + (int px + kx))
      = Some (?g (nat (int px + kx)) (nat (int py + ky)))"
      using r assms by (subst raster_fill_get) auto
    also have "dilate_value ?speck width (nat (int px + kx)) (nat (int py + ky)) = Some 255"
      using r assms by (intro dilate_speck_near) auto
    finally show ?thesis by (simp add: buf_store_def)
  qed
  have "erode_value (raster_fill ?g width height) width px py = Some 255"
    unfolding erode_value_nbhd by (intro foldl_js_min_all) (auto simp: nbhd_elem inner)
  then show "morph_closing ?speck width height ! (py * width + px) = 255"
    using assms
    by (simp add: morph_closing_def erode_raster dilate_raster raster_fill_interior buf_store_def)
qed

text \<open>
  The counterexample to C8 as stated, on a 7 by 7 mask with the defect at the centre
  (index 24): after the opening the isolated background pixel is still 0, and after the
  closing the isolated foreground pixel is still 255.
\<close>

theorem opening_keeps_hole_closing_keeps_speck:
  "morph_opening ((replicate 49 255)[24 := 0]) 7 7 ! 24 = 0
   \<and> morph_closing ((replicate 49 0)[24 := 255]) 7 7 ! 24 = 255"
  using defect_survives [of 3 7 3 7] by simp

section \<open>JavaScript doubles\<close>

text \<open>
  Where the result of a computation depends on rounding, its arithmetic is that of IEEE 754
  binary64 numbers: a finite double is the real number it denotes, and \<open>fl\<close> rounds a real
  to the nearest double, ties to even, with 53 significant bits. The exponent range is not
  bounded: bytes, image dimensions and the tolerances of the callers produce neither
  overflow nor underflow. An arithmetic operation of the source is the exact operation
  followed by \<open>fl\<close>; \<open>Math.sqrt\<close> is correctly rounded, \<open>Math.pow(v, 2)\<close> is the rounded
  product \<open>v * v\<close>, and a decimal literal such as \<open>0.6\<close> is \<open>fl 0.6\<close>. Sums, differences
  and products of integers below \<open>2 ^ 53\<close> are exact and are written without \<open>fl\<close>.
\<close>

definition round_even :: "real \<Rightarrow> int" where
  "round_even v =
     (let f = \<lfloor>v\<rfloor>
      in if v - real_of_int f < 1 / 2 then f
         else if v - real_of_int f > 1 / 2 then f + 1
         else if even f then f else f + 1)"

definition fl :: "real \<Rightarrow> real" where
  "fl v =
     (if v = 0 then 0
      else let ulp = 2 powr (real_of_int \<lfloor>log 2 \<bar>v\<bar>\<rfloor> - 52)
           in real_of_int (round_even (v / ulp)) * ulp)"

lemma fl_zero [simp]: "fl 0 = 0"
  by (simp add: fl_def)

lemma round_even_error: "\<bar>real_of_int (round_even v) - v\<bar> \<le> 1 / 2"
  unfolding round_even_def Let_def by (auto simp: abs_if) linarith+

lemma round_even_near:
  "real_of_int m - 1 / 2 < v \<Longrightarrow> v < real_of_int m + 1 / 2 \<Longrightarrow> round_even v = m"
proof -
  assume a: "real_of_int m - 1 / 2 < v" "v < real_of_int m + 1 / 2"
  have "\<bar>real_of_int (round_even v) - v\<bar> \<le> 1 / 2" by (rule round_even_error)
  then have "\<bar>real_of_int (round_even v) - real_of_int m\<bar> < 1" using a by linarith
  then have "\<bar>round_even v - m\<bar> < 1" by (metis of_int_abs of_int_diff of_int_less_1_iff)
  then show ?thesis by simp
qed

lemma fl_binade:
  assumes "2 powr real_of_int e \<le> \<bar>v\<bar>" "\<bar>v\<bar> < 2 powr (real_of_int e + 1)"
  shows "fl v = real_of_int (round_even (v / 2 powr (real_of_int e - 52))) * 2 powr (real_of_int e - 52)"
proof -
  have pos: "0 < \<bar>v\<bar>" using assms(1) by (smt (verit) powr_gt_zero)
  then have nz: "v \<noteq> 0" by simp
  have "\<lfloor>log 2 \<bar>v\<bar>\<rfloor> = e"
    using assms pos by (subst floor_log_eq_powr_iff) simp_all
  then show ?thesis using nz by (simp add: fl_def Let_def)
qed

lemma fl_scaled:
  assumes s: "s = 2 powr (52 - real_of_int e)"
    and lo: "2 ^ 52 \<le> \<bar>v\<bar> * s" and hi: "\<bar>v\<bar> * s < 2 ^ 53"
  shows "fl v = real_of_int (round_even (v * s)) / s"
proof -
  have spos: "0 < s" using s by simp
  have inv: "2 powr (real_of_int e - 52) = 1 / s"
    unfolding s by (simp add: powr_diff)
  have p52: "s * 2 powr real_of_int e = 2 ^ 52"
  proof -
    have "s * 2 powr real_of_int e = 2 powr (52 - real_of_int e + real_of_int e)"
      unfolding s by (simp only: powr_add)
    also have "\<dots> = 2 powr 52" by simp
    also have "\<dots> = 2 ^ 52" by (simp add: powr_numeral del: power_numeral)
    finally show ?thesis .
  qed
  have e1: "2 powr real_of_int e = 2 ^ 52 / s" using p52 spos by (simp add: field_simps)
  have e2: "2 powr (real_of_int e + 1) = 2 ^ 53 / s"
    by (simp add: powr_add e1)
  have "2 powr real_of_int e \<le> \<bar>v\<bar>" unfolding e1 using lo spos by (simp add: field_simps)
  moreover have "\<bar>v\<bar> < 2 powr (real_of_int e + 1)" unfolding e2 using hi spos by (simp add: field_simps)
  ultimately show ?thesis using fl_binade [of e v] by (simp add: inv)
qed

text \<open>
  Rounding a number whose binade is known: \<open>2 ^ k \<le> \<bar>v\<bar> < 2 ^ (k + 1)\<close>, or
  \<open>2 ^ - k \<le> \<bar>v\<bar> < 2 ^ (1 - k)\<close>.
\<close>

lemma fl_eval_up:
  fixes k :: nat
  assumes "k \<le> 52" "2 ^ k \<le> \<bar>v\<bar>" "\<bar>v\<bar> < 2 * 2 ^ k"
  shows "fl v = real_of_int (round_even (v * 2 ^ (52 - k))) / 2 ^ (52 - k)"
proof -
  have s: "(2::real) ^ (52 - k) = 2 powr (52 - real_of_int (int k))"
    using assms(1) by (simp add: powr_realpow [symmetric] of_nat_diff)
  have k52: "(2::real) ^ k * 2 ^ (52 - k) = 2 ^ 52"
    using assms(1) by (simp add: power_add [symmetric] del: power_numeral)
  have lo: "2 ^ 52 \<le> \<bar>v\<bar> * 2 ^ (52 - k)"
    using mult_right_mono [OF assms(2), of "2 ^ (52 - k)"] by (simp only: k52) simp
  have "\<bar>v\<bar> * 2 ^ (52 - k) < (2 * 2 ^ k) * 2 ^ (52 - k)"
    using assms(3) by (rule mult_strict_right_mono) simp
  also have "\<dots> = 2 * (2 ^ k * 2 ^ (52 - k))" by simp
  also have "\<dots> = 2 ^ 53" by (simp only: k52) simp
  finally have hi: "\<bar>v\<bar> * 2 ^ (52 - k) < 2 ^ 53" .
  show ?thesis using s lo hi by (rule fl_scaled)
qed

lemma fl_eval_down:
  fixes k :: nat
  assumes "1 \<le> \<bar>v\<bar> * 2 ^ k" "\<bar>v\<bar> * 2 ^ k < 2"
  shows "fl v = real_of_int (round_even (v * 2 ^ (52 + k))) / 2 ^ (52 + k)"
proof -
  have s: "(2::real) ^ (52 + k) = 2 powr (52 - real_of_int (- int k))"
    by (simp add: powr_realpow [symmetric])
  have split: "\<bar>v\<bar> * 2 ^ (52 + k) = (\<bar>v\<bar> * 2 ^ k) * 2 ^ 52"
    by (simp add: power_add del: power_numeral)
  have lo: "2 ^ 52 \<le> \<bar>v\<bar> * 2 ^ (52 + k)"
    unfolding split using mult_right_mono [OF assms(1), of "2 ^ 52"] by simp
  have "(\<bar>v\<bar> * 2 ^ k) * 2 ^ 52 < 2 * 2 ^ 52"
    using assms(2) by (rule mult_strict_right_mono) simp
  then have hi: "\<bar>v\<bar> * 2 ^ (52 + k) < 2 ^ 53" unfolding split by simp
  show ?thesis using s lo hi by (rule fl_scaled)
qed

lemmas fl_evals = fl_zero round_even_def
  fl_eval_up [where k = 0] fl_eval_up [where k = 1] fl_eval_up [where k = 2]
  fl_eval_up [where k = 3] fl_eval_up [where k = 4] fl_eval_up [where k = 5]
  fl_eval_up [where k = 6] fl_eval_up [where k = 7] fl_eval_up [where k = 8]
  fl_eval_up [where k = 9] fl_eval_up [where k = 10] fl_eval_up [where k = 11]
  fl_eval_up [where k = 12] fl_eval_up [where k = 13] fl_eval_up [where k = 14]
  fl_eval_down [where k = 1] fl_eval_down [where k = 2] fl_eval_down [where k = 3]
  fl_eval_down [where k = 4] fl_eval_down [where k = 5] fl_eval_down [where k = 6]
  fl_eval_down [where k = 7] fl_eval_down [where k = 8]

text \<open>The correctly rounded square root of a number, from a bracket of its square.\<close>

lemma fl_sqrt_scaled:
  assumes s: "s = 2 powr (52 - real_of_int e)"
    and m: "2 ^ 52 < real_of_int m" "real_of_int m < 2 ^ 53"
    and lo: "(real_of_int m - 1 / 2)\<^sup>2 < v * s\<^sup>2" and hi: "v * s\<^sup>2 < (real_of_int m + 1 / 2)\<^sup>2"
  shows "fl (sqrt v) = real_of_int m / s"
proof -
  have spos: "0 < s" using s by simp
  have ss: "sqrt (v * s\<^sup>2) = sqrt v * s" using spos by (simp add: real_sqrt_mult)
  have mpos: "0 \<le> real_of_int m - 1 / 2" using m(1) by simp
  have "real_of_int m - 1 / 2 < sqrt (v * s\<^sup>2)"
    using lo mpos by (intro real_less_rsqrt)
  then have l: "real_of_int m - 1 / 2 < sqrt v * s" by (simp only: ss)
  have "sqrt (v * s\<^sup>2) < real_of_int m + 1 / 2"
    using hi mpos by (intro real_less_lsqrt) simp_all
  then have h: "sqrt v * s < real_of_int m + 1 / 2" by (simp only: ss)
  have r: "round_even (sqrt v * s) = m" using l h by (rule round_even_near)
  have nn: "0 \<le> sqrt v * s" using l mpos by linarith
  then have "0 \<le> sqrt v" using spos by (simp add: zero_le_mult_iff)
  then have a: "\<bar>sqrt v\<bar> = sqrt v" by simp
  have "2 ^ 52 + 1 \<le> real_of_int m"
  proof -
    have "2 ^ 52 < m" using m(1) by (metis of_int_less_iff of_int_numeral of_int_power)
    then have "2 ^ 52 + 1 \<le> m" by simp
    then have "real_of_int (2 ^ 52 + 1) \<le> real_of_int m" by (simp only: of_int_le_iff)
    then show ?thesis by simp
  qed
  then have "2 ^ 52 \<le> \<bar>sqrt v\<bar> * s" unfolding a using l by linarith
  moreover have "real_of_int m + 1 \<le> 2 ^ 53"
  proof -
    have "m < 2 ^ 53" using m(2) by (metis of_int_less_iff of_int_numeral of_int_power)
    then have "m + 1 \<le> 2 ^ 53" by simp
    then have "real_of_int (m + 1) \<le> real_of_int (2 ^ 53)" by (simp only: of_int_le_iff)
    then show ?thesis by simp
  qed
  then have "\<bar>sqrt v\<bar> * s < 2 ^ 53" unfolding a using h by linarith
  ultimately have "fl (sqrt v) = real_of_int (round_even (sqrt v * s)) / s"
    using s by (intro fl_scaled)
  then show ?thesis by (simp only: r)
qed

lemma fl_sqrt_up:
  fixes k :: nat
  assumes "k \<le> 52" "2 ^ 52 < real_of_int m" "real_of_int m < 2 ^ 53"
    and "(real_of_int m - 1 / 2)\<^sup>2 < v * (2 ^ (52 - k))\<^sup>2"
    and "v * (2 ^ (52 - k))\<^sup>2 < (real_of_int m + 1 / 2)\<^sup>2"
  shows "fl (sqrt v) = real_of_int m / 2 ^ (52 - k)"
proof -
  have s: "(2::real) ^ (52 - k) = 2 powr (52 - real_of_int (int k))"
    using assms(1) by (simp add: powr_realpow [symmetric] of_nat_diff)
  show ?thesis using s assms(2-5) by (rule fl_sqrt_scaled)
qed

text \<open>
  The values of the counter of \<open>for (v = lo; v < hi; v += step)\<close>, the counter being a
  double. The second test of the guard makes the recursion total; it holds whenever
  \<open>\<bar>v + step\<bar> < 2 ^ 53\<close> (lemma \<open>js_range_advances\<close>), that is for every counter of an
  image that fits a buffer.
\<close>

function js_range :: "real \<Rightarrow> real \<Rightarrow> real \<Rightarrow> real list" where
  "js_range step v hi =
     (if v < hi \<and> v + 1 / 2 \<le> fl (v + step) then v # js_range step (fl (v + step)) hi else [])"
  by pat_completeness auto

termination
proof (relation "measure (\<lambda>(step, v, hi). nat \<lceil>2 * (hi - v)\<rceil>)")
  show "wf (measure (\<lambda>(step, v, hi). nat \<lceil>2 * (hi - v)\<rceil>))" by simp
next
  fix step v hi :: real
  assume a: "v < hi \<and> v + 1 / 2 \<le> fl (v + step)"
  then have "2 * (hi - fl (v + step)) \<le> 2 * (hi - v) - 1" by simp
  then have "\<lceil>2 * (hi - fl (v + step))\<rceil> \<le> \<lceil>2 * (hi - v) - 1\<rceil>" by (rule ceiling_mono)
  then have le: "\<lceil>2 * (hi - fl (v + step))\<rceil> \<le> \<lceil>2 * (hi - v)\<rceil> - 1" by simp
  have "0 < 2 * (hi - v)" using a by simp
  then have pos: "0 < \<lceil>2 * (hi - v)\<rceil>" by (simp add: less_ceiling_iff)
  have "nat \<lceil>2 * (hi - fl (v + step))\<rceil> < nat \<lceil>2 * (hi - v)\<rceil>"
    using le pos by linarith
  then show "((step, fl (v + step), hi), (step, v, hi))
      \<in> measure (\<lambda>(step, v, hi). nat \<lceil>2 * (hi - v)\<rceil>)"
    by simp
qed

declare js_range.simps [simp del]

lemma fl_error_small:
  assumes "\<bar>v\<bar> < 2 ^ 53"
  shows "\<bar>fl v - v\<bar> \<le> 1 / 2"
proof (cases "v = 0")
  case True
  then show ?thesis by simp
next
  case False
  define e where "e = \<lfloor>log 2 \<bar>v\<bar>\<rfloor>"
  define ulp where "ulp = 2 powr (real_of_int e - 52)"
  have pos: "0 < \<bar>v\<bar>" using False by simp
  have "log 2 \<bar>v\<bar> < log 2 (2 ^ 53)" using assms pos by simp
  then have "log 2 \<bar>v\<bar> < 53" by (simp add: log_nat_power del: power_numeral)
  then have "e < 53" unfolding e_def by (simp add: floor_less_iff)
  then have "real_of_int e - 52 \<le> 0" by simp
  then have "ulp \<le> 2 powr 0" unfolding ulp_def by (intro powr_mono) simp_all
  then have u1: "ulp \<le> 1" by simp
  have u0: "0 < ulp" unfolding ulp_def by simp
  have "fl v = real_of_int (round_even (v / ulp)) * ulp"
    using False by (simp add: fl_def Let_def ulp_def e_def)
  then have "fl v - v = (real_of_int (round_even (v / ulp)) - v / ulp) * ulp"
    using u0 by (simp add: field_simps)
  then have "\<bar>fl v - v\<bar> = \<bar>real_of_int (round_even (v / ulp)) - v / ulp\<bar> * ulp"
    using u0 by (simp add: abs_mult)
  also have "\<dots> \<le> (1 / 2) * ulp"
    using round_even_error [of "v / ulp"] u0 by (intro mult_right_mono) simp_all
  also have "\<dots> \<le> 1 / 2" using u1 by simp
  finally show ?thesis .
qed

lemma js_range_advances:
  assumes "\<bar>v + step\<bar> < 2 ^ 53" and "1 \<le> step"
  shows "v + 1 / 2 \<le> fl (v + step)"
  using fl_error_small [OF assms(1)] assms(2) by linarith

lemma js_range_cons:
  "v < hi \<Longrightarrow> v + 1 / 2 \<le> fl (v + step) \<Longrightarrow>
   js_range step v hi = v # js_range step (fl (v + step)) hi"
  by (simp add: js_range.simps)

lemma js_range_nil: "\<not> v < hi \<Longrightarrow> js_range step v hi = []"
  by (simp add: js_range.simps)

section \<open>MaskBuilder: createProtectedZone, createProtectedMask, createEnhancedProtectedMask\<close>

type_synonym jsnum = "real option"

definition js_byte :: "buffer \<Rightarrow> int \<Rightarrow> jsnum" where
  "js_byte buf i = map_option real (buf_get buf i)"

lemma js_byte_eval:
  "0 \<le> i \<Longrightarrow> i < int (length buf) \<Longrightarrow> js_byte buf i = Some (real (buf ! nat i))"
  by (simp add: js_byte_def buf_get_def)

definition truthy :: "nat option \<Rightarrow> bool" where
  "truthy v = (case v of None \<Rightarrow> False | Some n \<Rightarrow> n \<noteq> 0)"

definition store_int :: "int \<Rightarrow> nat" where
  "store_int v = nat (v mod 256)"

text \<open>A colour object \<open>{ r, g, b }\<close>; the fields are numbers and may be \<open>NaN\<close>.\<close>

record color =
  col_r :: jsnum
  col_g :: jsnum
  col_b :: jsnum

text \<open>\<open>Math.pow(v, 2)\<close>.\<close>

definition squared :: "real \<Rightarrow> real" where
  "squared v = fl (v * v)"

definition weightedDistance :: "jsnum \<Rightarrow> jsnum \<Rightarrow> jsnum \<Rightarrow> color \<Rightarrow> jsnum" where
  "weightedDistance pr pg pb targetColor =
     (case (pr, pg, pb, col_r targetColor, col_g targetColor, col_b targetColor) of
        (Some pr, Some pg, Some pb, Some tr, Some tg, Some tb) \<Rightarrow>
          Some (fl (sqrt (fl (fl (fl (squared (fl (pr - tr)) * fl 0.3)
                                + fl (squared (fl (pg - tg)) * fl 0.59))
                            + fl (squared (fl (pb - tb)) * fl 0.11)))))
      | _ \<Rightarrow> None)"

text \<open>The ellipse test of \<open>createProtectedZone\<close> is written in exact arithmetic.\<close>

definition distanceFromCenter :: "nat \<Rightarrow> nat \<Rightarrow> nat \<Rightarrow> nat \<Rightarrow> real" where
  "distanceFromCenter width height x y =
     (let protectSize = real (min width height) * 0.5;
          centerX = real width / 2;
          centerY = real height / 2
      in sqrt (((real x - centerX) / (protectSize / 2))\<^sup>2
             + ((real y - centerY) / (protectSize / 2))\<^sup>2))"

definition createProtectedZone :: "nat \<Rightarrow> nat \<Rightarrow> buffer" where
  "createProtectedZone width height =
     foldl (\<lambda>protectedZone y.
        foldl (\<lambda>protectedZone x.
           if distanceFromCenter width height x y \<le> 1
           then protectedZone[y * width + x := 1] else protectedZone)
          protectedZone [0..<width])
       (buf_alloc (width * height) 0) [0..<height]"

definition createProtectedMask ::
    "buffer \<Rightarrow> nat \<Rightarrow> nat \<Rightarrow> nat \<Rightarrow> color \<Rightarrow> real \<Rightarrow> buffer" where
  "createProtectedMask data width height channels targetColor tolerance =
     (let protectedZone = createProtectedZone width height in
      foldl (\<lambda>msk i.
         let pixelIdx = int (i * channels) in
         if truthy (buf_get protectedZone (int i)) then msk
         else
           (case weightedDistance (js_byte data pixelIdx) (js_byte data (pixelIdx + 1))
                   (js_byte data (pixelIdx + 2)) targetColor of
              None \<Rightarrow> msk
            | Some distance \<Rightarrow>
                if distance \<le> fl (tolerance * fl 0.6) then msk[i := 0]
                else if distance \<le> tolerance
                then msk[i := store_int (round (fl (fl (fl (distance - fl (tolerance * fl 0.6))
                                                       / fl (tolerance * fl 0.4)) * 255)))]
                else msk))
        (buf_alloc (width * height) 255) [0..<width * height])"

definition createEnhancedProtectedMask ::
    "buffer \<Rightarrow> nat \<Rightarrow> nat \<Rightarrow> nat \<Rightarrow> color \<Rightarrow> real \<Rightarrow> buffer" where
  "createEnhancedProtectedMask data width height channels targetColor tolerance =
     (let protectedZone = createProtectedZone width height in
      foldl (\<lambda>msk i.
         let pixelIdx = int (i * channels) in
         if truthy (buf_get protectedZone (int i)) then msk
         else
           (case weightedDistance (js_byte data pixelIdx) (js_byte data (pixelIdx + 1))
                   (js_byte data (pixelIdx + 2)) targetColor of
              None \<Rightarrow> msk
            | Some distance \<Rightarrow>
                let x = i mod width;
                    y = i div width;
                    edgeDistance = real (min (min x (width - x)) (min y (height - y)));
                    maxEdgeDistance = fl (real (min width height) * fl 0.35)
                in if distance \<le> fl (tolerance * fl 0.7) then msk[i := 0]
                   else if distance \<le> tolerance \<and> edgeDistance \<le> maxEdgeDistance
                   then msk[i := store_int (round (fl (fl (fl (distance - fl (tolerance * fl 0.7))
                                                          / fl (tolerance * fl 0.3)) * 255)))]
                   else msk))
        (buf_alloc (width * height) 255) [0..<width * height])"

subsection \<open>Loops over all pixels\<close>

text \<open>
  A pair of nested loops over rows and columns visits the indices \<open>0 ..< width * height\<close>
  in order, and a loop whose step \<open>i\<close> rewrites entry \<open>i\<close> only is described entry by entry.
\<close>

lemma nested_loop_flat:
  "foldl (\<lambda>a y. foldl (\<lambda>a x. f a x y) a [0..<w]) a0 [0..<h]
     = foldl (\<lambda>a i. f a (i mod w) (i div w)) a0 [0..<w * h]"
proof (induction h)
  case 0
  then show ?case by simp
next
  case (Suc h)
  have "[0..<w * h + w] = [0..<w * h] @ [w * h..<w * h + w]"
    by (rule upt_add_eq_append) simp
  also have "[w * h..<w * h + w] = map (\<lambda>x. x + w * h) [0..<w]"
    using map_add_upt [of "w * h" w] by (simp add: add.commute)
  finally have split: "[0..<w * Suc h] = [0..<w * h] @ map (\<lambda>x. x + w * h) [0..<w]"
    by (simp add: add.commute)
  have inner: "foldl (\<lambda>a i. f a (i mod w) (i div w)) a (map (\<lambda>x. x + w * h) [0..<w])
      = foldl (\<lambda>a x. f a x h) a [0..<w]" for a
    unfolding foldl_map by (rule foldl_cong) auto
  have "foldl (\<lambda>a y. foldl (\<lambda>a x. f a x y) a [0..<w]) a0 [0..<Suc h]
      = foldl (\<lambda>a x. f a x h) (foldl (\<lambda>a y. foldl (\<lambda>a x. f a x y) a [0..<w]) a0 [0..<h]) [0..<w]"
    by simp
  also have "\<dots> = foldl (\<lambda>a x. f a x h) (foldl (\<lambda>a i. f a (i mod w) (i div w)) a0 [0..<w * h]) [0..<w]"
    by (simp only: Suc)
  also have "\<dots> = foldl (\<lambda>a i. f a (i mod w) (i div w)) a0 [0..<w * Suc h]"
    by (simp only: split foldl_append inner)
  finally show ?case .
qed

lemma pixel_loop_prefix:
  assumes step: "\<And>m i. i < n \<Longrightarrow> length m = n \<Longrightarrow> step m i = m[i := F i (m ! i)]"
    and len: "length init = n" and k: "k \<le> n"
  shows "foldl step init [0..<k] = map (\<lambda>i. if i < k then F i (init ! i) else init ! i) [0..<n]"
  using k
proof (induction k)
  case 0
  have "map ((!) init) [0..<length init] = init" by (rule map_nth)
  then show ?case using len by simp
next
  case (Suc k)
  let ?m = "map (\<lambda>i. if i < k then F i (init ! i) else init ! i) [0..<n]"
  have "foldl step init [0..<Suc k] = step ?m k" using Suc by simp
  also have "\<dots> = ?m[k := F k (?m ! k)]" using Suc.prems by (intro step) auto
  also have "\<dots> = map (\<lambda>i. if i < Suc k then F i (init ! i) else init ! i) [0..<n]"
    using Suc.prems by (auto intro!: nth_equalityI simp: nth_list_update less_Suc_eq)
  finally show ?case .
qed

lemma pixel_loop_map:
  assumes "\<And>m i. i < n \<Longrightarrow> length m = n \<Longrightarrow> step m i = m[i := F i (m ! i)]"
    and "length init = n"
  shows "foldl step init [0..<n] = map (\<lambda>i. F i (init ! i)) [0..<n]"
  using pixel_loop_prefix [OF assms, of n] by simp

lemma div_mod_index: "(i div w) * w + i mod w = (i::nat)"
  by simp

lemma createProtectedZone_map:
  "createProtectedZone width height
     = map (\<lambda>i. if distanceFromCenter width height (i mod width) (i div width) \<le> 1 then 1 else 0)
         [0..<width * height]"
proof -
  let ?step = "\<lambda>pz i. if distanceFromCenter width height (i mod width) (i div width) \<le> 1
        then pz[(i div width) * width + i mod width := 1] else pz"
  let ?F = "\<lambda>i (old::nat). if distanceFromCenter width height (i mod width) (i div width) \<le> 1
        then 1 else old"
  have flat: "createProtectedZone width height
      = foldl ?step (buf_alloc (width * height) 0) [0..<width * height]"
    unfolding createProtectedZone_def
    by (rule nested_loop_flat [where f = "\<lambda>pz x y. if distanceFromCenter width height x y \<le> 1
        then pz[y * width + x := 1] else pz"])
  have step: "?step m j = m[j := ?F j (m ! j)]" for m :: buffer and j
    by (simp only: div_mod_index) simp
  have len: "length (buf_alloc (width * height) 0) = width * height" by (simp add: buf_alloc_def)
  have "foldl ?step (buf_alloc (width * height) 0) [0..<width * height]
      = map (\<lambda>i. ?F i (buf_alloc (width * height) 0 ! i)) [0..<width * height]"
    using step len by (rule pixel_loop_map)
  then show ?thesis unfolding flat by (simp add: buf_alloc_def cong: map_cong)
qed

lemma createProtectedZone_nth:
  assumes "i < width * height"
  shows "createProtectedZone width height ! i
      = (if distanceFromCenter width height (i mod width) (i div width) \<le> 1 then 1 else 0)"
  using assms by (simp add: createProtectedZone_map)

lemma createProtectedZone_length [simp]:
  "length (createProtectedZone width height) = width * height"
  by (simp add: createProtectedZone_map)

lemma distanceFromCenter_ellipse:
  assumes "0 < width" "0 < height"
  shows "distanceFromCenter width height x y \<le> 1 \<longleftrightarrow>
     (real x - real width / 2)\<^sup>2 + (real y - real height / 2)\<^sup>2
       \<le> (0.25 * real (min width height))\<^sup>2"
proof -
  define s where "s = real (min width height) * 0.5 / 2"
  have s: "0 < s" "s = 0.25 * real (min width height)" using assms by (simp_all add: s_def)
  have "distanceFromCenter width height x y
      = sqrt (((real x - real width / 2) / s)\<^sup>2 + ((real y - real height / 2) / s)\<^sup>2)"
    unfolding distanceFromCenter_def s_def Let_def ..
  also have "\<dots> \<le> 1 \<longleftrightarrow>
      ((real x - real width / 2) / s)\<^sup>2 + ((real y - real height / 2) / s)\<^sup>2 \<le> 1"
    by simp
  also have "((real x - real width / 2) / s)\<^sup>2 + ((real y - real height / 2) / s)\<^sup>2
      = ((real x - real width / 2)\<^sup>2 + (real y - real height / 2)\<^sup>2) / s\<^sup>2"
    by (simp add: power_divide add_divide_distrib)
  also have "\<dots> \<le> 1 \<longleftrightarrow> (real x - real width / 2)\<^sup>2 + (real y - real height / 2)\<^sup>2 \<le> s\<^sup>2"
    using s(1) by (simp add: divide_le_eq)
  finally show ?thesis by (simp only: s(2))
qed

definition protectedMaskValue ::
    "buffer \<Rightarrow> nat \<Rightarrow> nat \<Rightarrow> nat \<Rightarrow> color \<Rightarrow> real \<Rightarrow> nat \<Rightarrow> nat \<Rightarrow> nat" where
  "protectedMaskValue data width height channels targetColor tolerance i old =
     (if createProtectedZone width height ! i \<noteq> 0 then old
      else
        (case weightedDistance (js_byte data (int (i * channels))) (js_byte data (int (i * channels) + 1))
                (js_byte data (int (i * channels) + 2)) targetColor of
           None \<Rightarrow> old
         | Some distance \<Rightarrow>
             if distance \<le> fl (tolerance * fl 0.6) then 0
             else if distance \<le> tolerance
             then store_int (round (fl (fl (fl (distance - fl (tolerance * fl 0.6))
                                            / fl (tolerance * fl 0.4)) * 255)))
             else old))"

definition enhancedMaskValue ::
    "buffer \<Rightarrow> nat \<Rightarrow> nat \<Rightarrow> nat \<Rightarrow> color \<Rightarrow> real \<Rightarrow> nat \<Rightarrow> nat \<Rightarrow> nat" where
  "enhancedMaskValue data width height channels targetColor tolerance i old =
     (if createProtectedZone width height ! i \<noteq> 0 then old
      else
        (case weightedDistance (js_byte data (int (i * channels))) (js_byte data (int (i * channels) + 1))
                (js_byte data (int (i * channels) + 2)) targetColor of
           None \<Rightarrow> old
         | Some distance \<Rightarrow>
             if distance \<le> fl (tolerance * fl 0.7) then 0
             else if distance \<le> tolerance
                  \<and> real (min (min (i mod width) (width - i mod width))
                             (min (i div width) (height - i div width)))
                      \<le> fl (real (min width height) * fl 0.35)
             then store_int (round (fl (fl (fl (distance - fl (tolerance * fl 0.7))
                                            / fl (tolerance * fl 0.3)) * 255)))
             else old))"

lemma truthy_zone:
  "i < width * height \<Longrightarrow>
   truthy (buf_get (createProtectedZone width height) (int i))
     \<longleftrightarrow> createProtectedZone width height ! i \<noteq> 0"
proof -
  assume "i < width * height"
  then have "int i < int (width * height)" by (simp only: of_nat_less_iff)
  then show ?thesis
    by (simp add: truthy_def buf_get_def del: of_nat_mult)
qed

lemma createProtectedMask_map:
  "createProtectedMask data width height channels targetColor tolerance
     = map (\<lambda>i. protectedMaskValue data width height channels targetColor tolerance i 255)
         [0..<width * height]"
proof -
  let ?step = "\<lambda>msk i.
         let pixelIdx = int (i * channels) in
         if truthy (buf_get (createProtectedZone width height) (int i)) then msk
         else
           (case weightedDistance (js_byte data pixelIdx) (js_byte data (pixelIdx + 1))
                   (js_byte data (pixelIdx + 2)) targetColor of
              None \<Rightarrow> msk
            | Some distance \<Rightarrow>
                if distance \<le> fl (tolerance * fl 0.6) then msk[i := 0]
                else if distance \<le> tolerance
                then msk[i := store_int (round (fl (fl (fl (distance - fl (tolerance * fl 0.6))
                                                       / fl (tolerance * fl 0.4)) * 255)))]
                else msk)"
  let ?F = "protectedMaskValue data width height channels targetColor tolerance"
  have step: "?step m j = m[j := ?F j (m ! j)]" if "j < width * height" for m :: buffer and j
    using that
    by (simp add: protectedMaskValue_def truthy_zone Let_def del: of_nat_mult split: option.splits)
  have len: "length (buf_alloc (width * height) 255) = width * height" by (simp add: buf_alloc_def)
  have eq: "createProtectedMask data width height channels targetColor tolerance
      = foldl ?step (buf_alloc (width * height) 255) [0..<width * height]"
    by (simp add: createProtectedMask_def Let_def)
  have "foldl ?step (buf_alloc (width * height) 255) [0..<width * height]
      = map (\<lambda>i. ?F i (buf_alloc (width * height) 255 ! i)) [0..<width * height]"
    using step len by (rule pixel_loop_map)
  then show ?thesis unfolding eq by (simp add: buf_alloc_def cong: map_cong)
qed

lemma createProtectedMask_nth:
  assumes "i < width * height"
  shows "createProtectedMask data width height channels targetColor tolerance ! i
      = protectedMaskValue data width height channels targetColor tolerance i 255"
  using assms by (simp add: createProtectedMask_map)

lemma createProtectedMask_length [simp]:
  "length (createProtectedMask data width height channels targetColor tolerance) = width * height"
  by (simp add: createProtectedMask_map)

lemma createEnhancedProtectedMask_map:
  "createEnhancedProtectedMask data width height channels targetColor tolerance
     = map (\<lambda>i. enhancedMaskValue data width height channels targetColor tolerance i 255)
         [0..<width * height]"
proof -
  let ?step = "\<lambda>msk i.
         let pixelIdx = int (i * channels) in
         if truthy (buf_get (createProtectedZone width height) (int i)) then msk
         else
           (case weightedDistance (js_byte data pixelIdx) (js_byte data (pixelIdx + 1))
                   (js_byte data (pixelIdx + 2)) targetColor of
              None \<Rightarrow> msk
            | Some distance \<Rightarrow>
                let x = i mod width;
                    y = i div width;
                    edgeDistance = real (min (min x (width - x)) (min y (height - y)));
                    maxEdgeDistance = fl (real (min width height) * fl 0.35)
                in if distance \<le> fl (tolerance * fl 0.7) then msk[i := 0]
                   else if distance \<le> tolerance \<and> edgeDistance \<le> maxEdgeDistance
                   then msk[i := store_int (round (fl (fl (fl (distance - fl (tolerance * fl 0.7))
                                                          / fl (tolerance * fl 0.3)) * 255)))]
                   else msk)"
  let ?F = "enhancedMaskValue data width height channels targetColor tolerance"
  have step: "?step m j = m[j := ?F j (m ! j)]" if "j < width * height" for m :: buffer and j
    using that
    by (simp add: enhancedMaskValue_def truthy_zone Let_def del: of_nat_mult split: option.splits)
  have len: "length (buf_alloc (width * height) 255) = width * height" by (simp add: buf_alloc_def)
  have eq: "createEnhancedProtectedMask data width height channels targetColor tolerance
      = foldl ?step (buf_alloc (width * height) 255) [0..<width * height]"
    by (simp add: createEnhancedProtectedMask_def Let_def)
  have "foldl ?step (buf_alloc (width * height) 255) [0..<width * height]
      = map (\<lambda>i. ?F i (buf_alloc (width * height) 255 ! i)) [0..<width * height]"
    using step len by (rule pixel_loop_map)
  then show ?thesis unfolding eq by (simp add: buf_alloc_def cong: map_cong)
qed

lemma createEnhancedProtectedMask_nth:
  assumes "i < width * height"
  shows "createEnhancedProtectedMask data width height channels targetColor tolerance ! i
      = enhancedMaskValue data width height channels targetColor tolerance i 255"
  using assms by (simp add: createEnhancedProtectedMask_map)

lemma createEnhancedProtectedMask_length [simp]:
  "length (createEnhancedProtectedMask data width height channels targetColor tolerance)
     = width * height"
  by (simp add: createEnhancedProtectedMask_map)

lemma zone_protected_iff:
  assumes "i < width * height"
  shows "createProtectedZone width height ! i \<noteq> 0 \<longleftrightarrow>
     (real (i mod width) - real width / 2)\<^sup>2 + (real (i div width) - real height / 2)\<^sup>2
       \<le> (0.25 * real (min width height))\<^sup>2"
proof -
  have pos: "0 < width" "0 < height" using assms by (cases width; cases height; simp)+
  show ?thesis
    using createProtectedZone_nth [OF assms] distanceFromCenter_ellipse [OF pos]
    by simp
qed

lemma zone_eval:
  "i < width * height \<Longrightarrow>
   createProtectedZone width height ! i
     = (if (real (i mod width) - real width / 2)\<^sup>2 + (real (i div width) - real height / 2)\<^sup>2
           \<le> (0.25 * real (min width height))\<^sup>2 then 1 else 0)"
  using zone_protected_iff [of i width height] createProtectedZone_nth [of i width height]
  by (simp split: if_splits)

text \<open>
  Claim C3. Every pixel inside the ellipse centred on the image with semi-axes
  \<open>0.25 * min width height\<close> has value 255 in the mask of the plain builder
  (\<open>createProtectedMask\<close>) and in the mask of the enhanced builder
  (\<open>createEnhancedProtectedMask\<close>), for every image buffer, target colour and tolerance.
\<close>

theorem protected_zone_stays_opaque:
  assumes "i < width * height"
    and "(real (i mod width) - real width / 2)\<^sup>2 + (real (i div width) - real height / 2)\<^sup>2
           \<le> (0.25 * real (min width height))\<^sup>2"
  shows "createProtectedMask data width height channels targetColor tolerance ! i = 255
       \<and> createEnhancedProtectedMask data width height channels targetColor tolerance ! i = 255"
proof -
  have "createProtectedZone width height ! i \<noteq> 0"
    using zone_protected_iff [OF assms(1)] assms(2) by simp
  then show ?thesis
    by (simp add: createProtectedMask_nth [OF assms(1)]
        createEnhancedProtectedMask_nth [OF assms(1)] protectedMaskValue_def enhancedMaskValue_def)
qed

theorem protected_zone_stays_opaque_witness:
  "(10::nat) < 4 * 4
   \<and> (real (10 mod 4) - real 4 / 2)\<^sup>2 + (real (10 div 4) - real 4 / 2)\<^sup>2
        \<le> (0.25 * real (min 4 4))\<^sup>2
   \<and> createProtectedMask (replicate 48 0) 4 4 3 \<lparr>col_r = Some 0, col_g = Some 0, col_b = Some 0\<rparr> 35 ! 10 = 255
   \<and> createEnhancedProtectedMask (replicate 48 0) 4 4 3 \<lparr>col_r = Some 0, col_g = Some 0, col_b = Some 0\<rparr> 35 ! 10
        = 255"
  using protected_zone_stays_opaque [of 10 4 4 "replicate 48 0" 3
      "\<lparr>col_r = Some 0, col_g = Some 0, col_b = Some 0\<rparr>" 35]
  by simp

text \<open>
  Claim C2. The plain builder decides by the distance, the thresholds and the ramp as the
  code computes them, in doubles: for a pixel outside the protected ellipse whose three
  channels lie in the buffer, with \<open>d\<close> the double
  \<open>Math.sqrt(Math.pow(dr, 2) * 0.3 + Math.pow(dg, 2) * 0.59 + Math.pow(db, 2) * 0.11)\<close>,
  it writes 0 when \<open>d \<le> T * 0.6\<close>, the byte of
  \<open>Math.round((d - T * 0.6) / (T * 0.4) * 255)\<close> when \<open>T * 0.6 < d \<le> T\<close>, and leaves 255
  otherwise, every operation rounded. With the exact values of the claim in place of the
  doubles the claim fails at ties of the ramp, see \<open>plain_mask_ramp_tie\<close>.
\<close>

theorem plain_mask_values:
  assumes "i < width * height" and "i * channels + 2 < length data"
    and "col_r targetColor = Some tr" and "col_g targetColor = Some tg"
    and "col_b targetColor = Some tb"
    and "(0.25 * real (min width height))\<^sup>2
           < (real (i mod width) - real width / 2)\<^sup>2 + (real (i div width) - real height / 2)\<^sup>2"
    and "d = fl (sqrt (fl (fl (fl (squared (fl (real (data ! (i * channels)) - tr)) * fl 0.3)
                            + fl (squared (fl (real (data ! (i * channels + 1)) - tg)) * fl 0.59))
                        + fl (squared (fl (real (data ! (i * channels + 2)) - tb)) * fl 0.11))))"
  shows "createProtectedMask data width height channels targetColor tolerance ! i
      = (if d \<le> fl (tolerance * fl 0.6) then 0
         else if d \<le> tolerance
         then store_int (round (fl (fl (fl (d - fl (tolerance * fl 0.6))
                                        / fl (tolerance * fl 0.4)) * 255)))
         else 255)"
proof -
  have zone: "createProtectedZone width height ! i = 0"
    using zone_protected_iff [OF assms(1)] assms(6) by simp
  have reads: "js_byte data (int (i * channels)) = Some (real (data ! (i * channels)))"
    "js_byte data (int (i * channels) + 1) = Some (real (data ! (i * channels + 1)))"
    "js_byte data (int (i * channels) + 2) = Some (real (data ! (i * channels + 2)))"
    using assms(2) by (simp_all add: js_byte_def buf_get_def nat_add_distrib del: of_nat_mult)
  have dist: "weightedDistance (js_byte data (int (i * channels))) (js_byte data (int (i * channels) + 1))
      (js_byte data (int (i * channels) + 2)) targetColor = Some d"
    unfolding reads by (simp add: weightedDistance_def assms(3,4,5,7))
  show ?thesis
    unfolding createProtectedMask_nth [OF assms(1)] protectedMaskValue_def dist
    using zone by simp
qed

text \<open>
  A 4 by 4 image whose first pixel is (32, 32, 32), target colour black, tolerance 40. The
  weighted sum is a double just below 1024 and its root the double just below 32.
\<close>

definition black :: color where
  "black = \<lparr>col_r = Some 0, col_g = Some 0, col_b = Some 0\<rparr>"

definition img44 :: buffer where
  "img44 = [32, 32, 32] @ replicate 45 0"

lemma sqrt_below_1024:
  "fl (sqrt (9007199254740991 / 8796093022208)) = 9007199254740991 / 281474976710656"
  using fl_sqrt_up [where k = 4 and m = 9007199254740991 and v = "9007199254740991 / 8796093022208"]
  by (simp add: power2_eq_square)

lemma distance_32:
  "fl (sqrt (fl (fl (fl (squared (fl (32 - 0)) * fl 0.3) + fl (squared (fl (32 - 0)) * fl 0.59))
                   + fl (squared (fl (32 - 0)) * fl 0.11))))
     = 9007199254740991 / 281474976710656"
  by (simp add: squared_def fl_evals sqrt_below_1024)

theorem plain_mask_values_witness:
  "(0::nat) < 4 * 4 \<and> 0 * 3 + 2 < length img44
   \<and> (0.25 * real (min 4 4))\<^sup>2
        < (real (0 mod 4) - real 4 / 2)\<^sup>2 + (real (0 div 4) - real 4 / 2)\<^sup>2
   \<and> createProtectedMask img44 4 4 3 black 40 ! 0 = 127"
proof -
  have d: "9007199254740991 / 281474976710656
      = fl (sqrt (fl (fl (fl (squared (fl (real (img44 ! (0 * 3)) - 0)) * fl 0.3)
                            + fl (squared (fl (real (img44 ! (0 * 3 + 1)) - 0)) * fl 0.59))
                        + fl (squared (fl (real (img44 ! (0 * 3 + 2)) - 0)) * fl 0.11))))"
    using distance_32 by (simp add: img44_def)
  have ramp: "store_int (round (fl (fl (fl (9007199254740991 / 281474976710656 - fl (40 * fl 0.6))
                                        / fl (40 * fl 0.4)) * 255))) = 127"
    by (simp add: fl_evals store_int_def round_def)
  have low: "\<not> 9007199254740991 / 281474976710656 \<le> fl (40 * fl 0.6)"
    by (simp add: fl_evals)
  show ?thesis
    using plain_mask_values [of 0 4 4 3 img44 black 0 0 0 "9007199254740991 / 281474976710656" 40,
        OF _ _ _ _ _ _ d] ramp low
    by (simp add: black_def img44_def power2_eq_square)
qed

lemma mask44_first: "createProtectedMask img44 4 4 3 black 40 ! 0 = 127"
proof -
  have wd: "weightedDistance (js_byte img44 (int (0 * 3))) (js_byte img44 (int (0 * 3) + 1))
      (js_byte img44 (int (0 * 3) + 2)) black = Some (9007199254740991 / 281474976710656)"
    using distance_32 by (simp add: weightedDistance_def js_byte_eval img44_def black_def)
  have zone: "createProtectedZone 4 4 ! 0 = 0"
    by (simp add: zone_eval power2_eq_square)
  have ramp: "store_int (round (fl (fl (fl (9007199254740991 / 281474976710656 - fl (40 * fl 0.6))
                                        / fl (40 * fl 0.4)) * 255))) = 127"
    by (simp add: fl_evals store_int_def round_def)
  have low: "\<not> 9007199254740991 / 281474976710656 \<le> fl (40 * fl 0.6)"
    by (simp add: fl_evals)
  have "createProtectedMask img44 4 4 3 black 40 ! 0
      = protectedMaskValue img44 4 4 3 black 40 0 255"
    by (rule createProtectedMask_nth) simp
  then show ?thesis
    unfolding protectedMaskValue_def wd using zone ramp low by simp
qed

text \<open>
  Claim C2 as stated, with exact values: at this pixel the distance is
  \<open>sqrt (0.3 * 1024 + 0.59 * 1024 + 0.11 * 1024) = 32\<close>, between \<open>0.6 * 40\<close> and 40, and the
  ramp value is \<open>round (8 / 16 * 255) = 128\<close>. The code stores 127: its distance is the
  double just below 32 and its ramp just below 127.5.
\<close>

theorem plain_mask_ramp_tie:
  "createProtectedMask img44 4 4 3 black 40 ! 0 = 127
   \<and> 0.6 * 40 < sqrt (0.3 * (32 - 0)\<^sup>2 + 0.59 * (32 - 0)\<^sup>2 + 0.11 * (32 - 0)\<^sup>2)
   \<and> sqrt (0.3 * (32 - 0)\<^sup>2 + 0.59 * (32 - 0)\<^sup>2 + 0.11 * (32 - 0)\<^sup>2) \<le> (40::real)
   \<and> round ((sqrt (0.3 * (32 - 0)\<^sup>2 + 0.59 * (32 - 0)\<^sup>2 + 0.11 * (32 - 0)\<^sup>2) - 0.6 * 40)
              / (0.4 * 40) * 255 :: real) = 128"
proof -
  have root: "sqrt (0.3 * (32 - 0)\<^sup>2 + 0.59 * (32 - 0)\<^sup>2 + 0.11 * (32 - 0)\<^sup>2) = (32::real)"
    using real_sqrt_abs [of 32] by simp
  have "createProtectedMask img44 4 4 3 black 40 ! 0 = 127"
    by (rule mask44_first)
  then show ?thesis unfolding root by (simp add: round_def)
qed

section \<open>RegionGrower: enhancedFloodFill and createEnhancedFloodFillMask\<close>

text \<open>
  The \<open>while\<close> loop of \<open>enhancedFloodFill\<close> is \<open>floodLoop\<close>: its state is the queue, the
  mask, the visited set shared by all seeds, and the counter \<open>processedPixels\<close>, which
  every call starts at 0. The loop stops when the queue is empty or the counter has reached
  \<open>maxPixels = width * height * 0.65\<close>.
\<close>

definition pixelColor :: "buffer \<Rightarrow> int \<Rightarrow> color" where
  "pixelColor data idx =
     \<lparr>col_r = js_byte data idx, col_g = js_byte data (idx + 1), col_b = js_byte data (idx + 2)\<rparr>"

definition adjustedTolerance :: "nat \<Rightarrow> nat \<Rightarrow> real \<Rightarrow> int \<Rightarrow> int \<Rightarrow> real" where
  "adjustedTolerance width height tolerance x y =
     (let edgeDistance = real_of_int (min (min x (int width - x)) (min y (int height - y)));
          maxEdgeDistance = real (min width height) * 0.4;
          distanceFactor = min 1 (edgeDistance / maxEdgeDistance)
      in tolerance * (1 - distanceFactor * 0.2))"

function floodLoop ::
    "buffer \<Rightarrow> buffer \<Rightarrow> nat \<Rightarrow> nat \<Rightarrow> nat \<Rightarrow> real \<Rightarrow> color \<Rightarrow>
     (int \<times> int) list \<Rightarrow> buffer \<Rightarrow> nat set \<Rightarrow> nat \<Rightarrow> buffer \<times> nat set \<times> nat" where
  "floodLoop data protectedZone width height channels tolerance startColor [] msk visited
      processedPixels = (msk, visited, processedPixels)"
| "floodLoop data protectedZone width height channels tolerance startColor ((x, y) # queue) msk visited
      processedPixels =
     (if \<not> real processedPixels < real (width * height) * 0.65
      then (msk, visited, processedPixels)
      else
        let index = y * int width + x in
        if x < 0 \<or> x \<ge> int width \<or> y < 0 \<or> y \<ge> int height \<or> nat index \<in> visited
           \<or> truthy (buf_get protectedZone index)
        then floodLoop data protectedZone width height channels tolerance startColor queue msk visited
               processedPixels
        else
          let pixelIdx = index * int channels in
          (case weightedDistance (js_byte data pixelIdx) (js_byte data (pixelIdx + 1))
                  (js_byte data (pixelIdx + 2)) startColor of
             None \<Rightarrow>
               floodLoop data protectedZone width height channels tolerance startColor queue msk
                 visited processedPixels
           | Some distance \<Rightarrow>
               if distance \<le> adjustedTolerance width height tolerance x y
               then floodLoop data protectedZone width height channels tolerance startColor
                      (queue @ [(x + 1, y), (x - 1, y), (x, y + 1), (x, y - 1)])
                      (msk[nat index := 0]) (insert (nat index) visited) (processedPixels + 1)
               else floodLoop data protectedZone width height channels tolerance startColor queue msk
                      visited processedPixels))"
  by pat_completeness auto

lemma pixel_index_bound:
  assumes "0 \<le> x" "x < int width" "0 \<le> y" "y < int height"
  shows "nat (y * int width + x) < width * height"
proof -
  have "nat y * width + nat x < width * height"
    using assms by (intro index_bound) auto
  moreover have "nat (y * int width + x) = nat y * width + nat x"
    using assms by (simp add: nat_add_distrib nat_mult_distrib)
  ultimately show ?thesis by simp
qed

lemma card_unvisited_insert:
  fixes k n :: nat
  assumes "k < n" "k \<notin> visited"
  shows "card ({0..<n} - insert k visited) < card ({0..<n} - visited)"
proof -
  have mem: "k \<in> {0..<n} - visited" using assms by simp
  have eq: "{0..<n} - insert k visited = ({0..<n} - visited) - {k}" by auto
  have "finite ({0..<n} - visited)" by simp
  then have "card (({0..<n} - visited) - {k}) < card ({0..<n} - visited)"
    using mem by (rule card_Diff1_less)
  then show ?thesis by (simp only: eq)
qed

termination floodLoop
proof (relation "measure (\<lambda>(data, protectedZone, width, height, channels, tolerance, startColor,
      queue, msk, visited, processedPixels).
      5 * card ({0..<width * height} - visited) + length queue)", goal_cases)
  case 1
  then show ?case by simp
next
  case (2 data protectedZone width height channels tolerance startColor x y queue msk visited pp index)
  then show ?case by simp
next
  case (3 data protectedZone width height channels tolerance startColor x y queue msk visited pp index pixelIdx)
  then show ?case by simp
next
  case (4 data protectedZone width height channels tolerance startColor x y queue msk visited pp index pixelIdx distance)
  then have "nat index < width * height" "nat index \<notin> visited"
    by (auto intro: pixel_index_bound)
  then have "card ({0..<width * height} - insert (nat index) visited)
      < card ({0..<width * height} - visited)"
    by (rule card_unvisited_insert)
  then show ?case by simp
next
  case (5 data protectedZone width height channels tolerance startColor x y queue msk visited pp index pixelIdx distance)
  then show ?case by simp
qed

definition enhancedFloodFill ::
    "buffer \<Rightarrow> buffer \<Rightarrow> nat set \<Rightarrow> buffer \<Rightarrow> int \<Rightarrow> int \<Rightarrow> nat \<Rightarrow> nat \<Rightarrow> nat \<Rightarrow> real
     \<Rightarrow> buffer \<times> nat set \<times> nat" where
  "enhancedFloodFill data msk visited protectedZone startX startY width height channels tolerance =
     (let startIdx = (startY * int width + startX) * int channels;
          startColor = pixelColor data startIdx
      in floodLoop data protectedZone width height channels tolerance startColor [(startX, startY)]
           msk visited 0)"

definition isLikelyBackgroundPixel :: "buffer \<Rightarrow> int \<Rightarrow> int \<Rightarrow> nat \<Rightarrow> nat \<Rightarrow> nat \<Rightarrow> bool" where
  "isLikelyBackgroundPixel data x y width height channels =
     (let idx = (y * int width + x) * int channels in
      case (js_byte data idx, js_byte data (idx + 1), js_byte data (idx + 2)) of
        (Some r, Some g, Some b) \<Rightarrow>
          (let lightness = (r + g + b) / 3;
               colorVariation = \<bar>r - g\<bar> + \<bar>g - b\<bar> + \<bar>r - b\<bar>
           in lightness > 120 \<or> colorVariation < 50)
      | _ \<Rightarrow> False)"

definition startPoints :: "buffer \<Rightarrow> nat \<Rightarrow> nat \<Rightarrow> nat \<Rightarrow> (int \<times> int) list" where
  "startPoints data width height channels =
     (let w = int width; h = int height;
          corners = [(0, 0), (w - 1, 0), (0, h - 1), (w - 1, h - 1)];
          edgeMidpoints = [(w div 2, 0), (w div 2, h - 1), (0, h div 2), (w - 1, h div 2)];
          quarterPoints =
            [(w div 4, 0), (3 * w div 4, 0), (w div 4, h - 1), (3 * w div 4, h - 1),
             (0, h div 4), (0, 3 * h div 4), (w - 1, h div 4), (w - 1, 3 * h div 4)]
      in corners
         @ filter (\<lambda>(x, y). isLikelyBackgroundPixel data x y width height channels) edgeMidpoints
         @ filter (\<lambda>(x, y). isLikelyBackgroundPixel data x y width height channels) quarterPoints)"

definition floodFillSeeds ::
    "buffer \<Rightarrow> buffer \<Rightarrow> nat \<Rightarrow> nat \<Rightarrow> nat \<Rightarrow> (int \<times> int) list \<Rightarrow> buffer \<times> nat set
     \<Rightarrow> buffer \<times> nat set" where
  "floodFillSeeds data protectedZone width height channels starts state =
     foldl (\<lambda>(msk, visited) (startX, startY).
        case enhancedFloodFill data msk visited protectedZone startX startY width height channels 40 of
          (msk', visited', processedPixels) \<Rightarrow> (msk', visited'))
       state starts"

definition createEnhancedFloodFillMask :: "buffer \<Rightarrow> nat \<Rightarrow> nat \<Rightarrow> nat \<Rightarrow> buffer" where
  "createEnhancedFloodFillMask data width height channels =
     fst (floodFillSeeds data (createProtectedZone width height) width height channels
            (startPoints data width height channels) (buf_alloc (width * height) 255, {}))"

lemma zone_truthy_eval:
  assumes "0 \<le> idx" "idx < int (width * height)"
  shows "truthy (buf_get (createProtectedZone width height) idx) \<longleftrightarrow>
     (real (nat idx mod width) - real width / 2)\<^sup>2 + (real (nat idx div width) - real height / 2)\<^sup>2
       \<le> (0.25 * real (min width height))\<^sup>2"
proof -
  have lt: "nat idx < width * height" using assms by (simp add: nat_less_iff)
  show ?thesis using truthy_zone [OF lt] zone_protected_iff [OF lt] assms by simp
qed

declare floodLoop.simps [simp del]

lemma floodLoop_stop:
  "\<not> real processedPixels < real (width * height) * 0.65 \<Longrightarrow>
   floodLoop data protectedZone width height channels tolerance startColor (p # queue) msk visited
     processedPixels = (msk, visited, processedPixels)"
  by (cases p) (simp add: floodLoop.simps)

lemma floodLoop_skip:
  "real processedPixels < real (width * height) * 0.65 \<Longrightarrow>
   x < 0 \<or> x \<ge> int width \<or> y < 0 \<or> y \<ge> int height \<or> nat (y * int width + x) \<in> visited
     \<or> truthy (buf_get protectedZone (y * int width + x)) \<Longrightarrow>
   floodLoop data protectedZone width height channels tolerance startColor ((x, y) # queue) msk visited
     processedPixels
   = floodLoop data protectedZone width height channels tolerance startColor queue msk visited
       processedPixels"
  by (simp add: floodLoop.simps Let_def)

lemma floodLoop_absorb:
  "real processedPixels < real (width * height) * 0.65 \<Longrightarrow>
   \<not> (x < 0 \<or> x \<ge> int width \<or> y < 0 \<or> y \<ge> int height \<or> nat (y * int width + x) \<in> visited
     \<or> truthy (buf_get protectedZone (y * int width + x))) \<Longrightarrow>
   (case weightedDistance (js_byte data ((y * int width + x) * int channels))
       (js_byte data ((y * int width + x) * int channels + 1))
       (js_byte data ((y * int width + x) * int channels + 2)) startColor of
      None \<Rightarrow> False | Some distance \<Rightarrow> distance \<le> adjustedTolerance width height tolerance x y) \<Longrightarrow>
   floodLoop data protectedZone width height channels tolerance startColor ((x, y) # queue) msk visited
     processedPixels
   = floodLoop data protectedZone width height channels tolerance startColor
       (queue @ [(x + 1, y), (x - 1, y), (x, y + 1), (x, y - 1)])
       (msk[nat (y * int width + x) := 0]) (insert (nat (y * int width + x)) visited)
       (processedPixels + 1)"
  by (simp add: floodLoop.simps Let_def split: option.splits)


lemma floodLoop_invariant:
  assumes init: "P msk visited processedPixels"
    and absorb: "\<And>x y msk visited processedPixels.
      P msk visited processedPixels \<Longrightarrow>
      real processedPixels < real (width * height) * 0.65 \<Longrightarrow>
      0 \<le> x \<Longrightarrow> x < int width \<Longrightarrow> 0 \<le> y \<Longrightarrow> y < int height \<Longrightarrow>
      nat (y * int width + x) \<notin> visited \<Longrightarrow>
      \<not> truthy (buf_get protectedZone (y * int width + x)) \<Longrightarrow>
      P (msk[nat (y * int width + x) := 0]) (insert (nat (y * int width + x)) visited)
        (processedPixels + 1)"
  shows "case floodLoop data protectedZone width height channels tolerance startColor queue msk
           visited processedPixels of (msk', visited', processed') \<Rightarrow> P msk' visited' processed'"
  using init absorb
proof (induction data protectedZone width height channels tolerance startColor queue msk visited
    processedPixels rule: floodLoop.induct)
  case (1 data protectedZone width height channels tolerance startColor msk visited processedPixels)
  then show ?case by (simp add: floodLoop.simps)
next
  case (2 data protectedZone width height channels tolerance startColor x y queue msk visited
      processedPixels)
  note IH = "2.IH" and P = "2.prems"(1) and step = "2.prems"(2)
  show ?case
  proof (cases "real processedPixels < real (width * height) * 0.65")
    case False
    then show ?thesis using P by (simp add: floodLoop_stop)
  next
    case cap: True
    show ?thesis
    proof (cases "x < 0 \<or> x \<ge> int width \<or> y < 0 \<or> y \<ge> int height
        \<or> nat (y * int width + x) \<in> visited \<or> truthy (buf_get protectedZone (y * int width + x))")
      case True
      then show ?thesis using IH(1) [OF _ refl _ P step] cap
        by (simp add: floodLoop_skip)
    next
      case inside: False
      show ?thesis
      proof (cases "weightedDistance (js_byte data ((y * int width + x) * int channels))
          (js_byte data ((y * int width + x) * int channels + 1))
          (js_byte data ((y * int width + x) * int channels + 2)) startColor")
        case None
        then show ?thesis using IH(2) [OF _ refl _ refl _ P step] cap inside
          by (simp add: floodLoop.simps Let_def)
      next
        case (Some distance)
        show ?thesis
        proof (cases "distance \<le> adjustedTolerance width height tolerance x y")
          case True
          have P': "P (msk[nat (y * int width + x) := 0]) (insert (nat (y * int width + x)) visited)
              (processedPixels + 1)"
            using inside cap P
            by (intro step) auto
          show ?thesis
            using IH(3) [OF _ refl _ refl Some True P' step] cap inside Some True
            by (simp add: floodLoop.simps Let_def)
        next
          case False
          then show ?thesis using IH(4) [OF _ refl _ refl Some False P step] cap inside Some
            by (simp add: floodLoop.simps Let_def)
        qed
      qed
    qed
  qed
qed


lemma floodLoop_facts:
  assumes "finite visited"
  shows "case floodLoop data protectedZone width height channels tolerance startColor queue msk
           visited processedPixels of (msk', visited', processed') \<Rightarrow>
      (real processedPixels < real (width * height) * 0.65 + 1
         \<longrightarrow> real processed' < real (width * height) * 0.65 + 1)
      \<and> finite visited' \<and> card visited' + processedPixels = card visited + processed'
      \<and> length msk' = length msk
      \<and> (\<forall>i. truthy (buf_get protectedZone (int i)) \<longrightarrow> msk' ! i = msk ! i)"
proof (rule floodLoop_invariant, goal_cases)
  case 1
  then show ?case using assms by simp
next
  case (2 x y m v p)
  have idx: "int (nat (y * int width + x)) = y * int width + x"
    using 2(3,5) by simp
  have "\<forall>i. truthy (buf_get protectedZone (int i)) \<longrightarrow> i \<noteq> nat (y * int width + x)"
    using 2(8) idx by auto
  then show ?case using 2 by (auto simp: nth_list_update)
qed

lemma enhancedFloodFill_facts:
  assumes "finite visited"
  shows "case enhancedFloodFill data msk visited protectedZone startX startY width height channels
           tolerance of (msk', visited', processed') \<Rightarrow>
      real processed' < real (width * height) * 0.65 + 1
      \<and> finite visited' \<and> card visited' = card visited + processed'
      \<and> length msk' = length msk
      \<and> (\<forall>i. truthy (buf_get protectedZone (int i)) \<longrightarrow> msk' ! i = msk ! i)"
proof -
  have "0 \<le> real (width * height) * 0.65" by simp
  then have cap: "real (0::nat) < real (width * height) * 0.65 + 1"
    unfolding of_nat_0 by (rule add_nonneg_pos) simp
  show ?thesis
  using cap floodLoop_facts [OF assms, where data = data and protectedZone = protectedZone
      and width = width and height = height and channels = channels and tolerance = tolerance
      and startColor = "pixelColor data ((startY * int width + startX) * int channels)"
      and queue = "[(startX, startY)]" and msk = msk and processedPixels = 0]
  by (auto simp: enhancedFloodFill_def Let_def split: prod.splits)
qed

lemma floodFillSeeds_facts:
  assumes "finite visited"
  shows "case floodFillSeeds data protectedZone width height channels starts (msk, visited) of
      (msk', visited') \<Rightarrow> finite visited' \<and> length msk' = length msk
        \<and> (\<forall>i. truthy (buf_get protectedZone (int i)) \<longrightarrow> msk' ! i = msk ! i)"
  using assms
proof (induction starts arbitrary: msk visited)
  case Nil
  then show ?case by (simp add: floodFillSeeds_def)
next
  case (Cons s starts)
  obtain sx sy where s: "s = (sx, sy)" by (cases s)
  obtain m1 v1 p1 where one:
    "enhancedFloodFill data msk visited protectedZone sx sy width height channels 40 = (m1, v1, p1)"
    by (cases "enhancedFloodFill data msk visited protectedZone sx sy width height channels 40")
  have f1: "finite v1" "length m1 = length msk"
    "\<forall>i. truthy (buf_get protectedZone (int i)) \<longrightarrow> m1 ! i = msk ! i"
    using enhancedFloodFill_facts [OF Cons.prems, where data = data and msk = msk
        and protectedZone = protectedZone and startX = sx and startY = sy and width = width
        and height = height and channels = channels and tolerance = 40] one by auto
  have unfold: "floodFillSeeds data protectedZone width height channels (s # starts) (msk, visited)
      = floodFillSeeds data protectedZone width height channels starts (m1, v1)"
    by (simp add: floodFillSeeds_def s one)
  show ?case unfolding unfold using Cons.IH [OF f1(1), where msk = m1] f1(2,3)
    by (auto split: prod.splits)
qed

lemma createEnhancedFloodFillMask_protected:
  assumes "i < width * height"
    and "(real (i mod width) - real width / 2)\<^sup>2 + (real (i div width) - real height / 2)\<^sup>2
           \<le> (0.25 * real (min width height))\<^sup>2"
  shows "createEnhancedFloodFillMask data width height channels ! i = 255"
proof -
  have "truthy (buf_get (createProtectedZone width height) (int i))"
    using truthy_zone [OF assms(1)] zone_protected_iff [OF assms(1)] assms(2) by simp
  moreover have "buf_alloc (width * height) 255 ! i = 255"
    using assms(1) by (simp add: buf_alloc_def)
  ultimately show ?thesis
    using floodFillSeeds_facts [where visited = "{}" and data = data
        and protectedZone = "createProtectedZone width height" and width = width and height = height
        and channels = channels and starts = "startPoints data width height channels"
        and msk = "buf_alloc (width * height) 255"]
    by (auto simp: createEnhancedFloodFillMask_def split: prod.splits)
qed

text \<open>
  A uniform 6 by 6 image of colour (100, 0, 0), three channels: only the four corners are
  seeds (the colour is neither light nor neutral), and the flood fill is followed step by
  step.
\<close>

definition img66 :: buffer where
  "img66 = [100,0,0, 100,0,0, 100,0,0, 100,0,0, 100,0,0, 100,0,0,
            100,0,0, 100,0,0, 100,0,0, 100,0,0, 100,0,0, 100,0,0,
            100,0,0, 100,0,0, 100,0,0, 100,0,0, 100,0,0, 100,0,0,
            100,0,0, 100,0,0, 100,0,0, 100,0,0, 100,0,0, 100,0,0,
            100,0,0, 100,0,0, 100,0,0, 100,0,0, 100,0,0, 100,0,0,
            100,0,0, 100,0,0, 100,0,0, 100,0,0, 100,0,0, 100,0,0]"

lemma sp66: "startPoints img66 6 6 3 = [(0, 0), (5, 0), (0, 5), (5, 5)]"
  by (simp add: startPoints_def isLikelyBackgroundPixel_def js_byte_def buf_get_def img66_def)

lemmas flood_eval = floodLoop_skip floodLoop_absorb floodLoop_stop floodLoop.simps(1)
     zone_truthy_eval power2_eq_square weightedDistance_def squared_def js_byte_eval
     adjustedTolerance_def



lemma all255: "replicate 36 (255::nat) = [255,255,255,255,255,255, 255,255,255,255,255,255,
   255,255,255,255,255,255, 255,255,255,255,255,255, 255,255,255,255,255,255, 255,255,255,255,255,255]"
  by (simp add: eval_nat_numeral)

lemma seed1_66:
  "enhancedFloodFill img66 (replicate 36 255) {} (createProtectedZone 6 6) 0 0 6 6 3 40 =
    ([0,0,0,0,0,0, 0,0,0,0,0,0, 0,0,255,255,255,0, 0,0,255,255,255,0, 0,0,255,255,255,255,
      0,0,0,0,255,255],
     {33, 23, 32, 17, 31, 11, 30, 25, 10, 5, 24, 19, 9, 4, 18, 13, 8, 3, 12, 7, 2, 6, 1, 0}, 24)"
  by (simp add: all255 flood_eval enhancedFloodFill_def pixelColor_def img66_def)

lemma floodmask66: "createEnhancedFloodFillMask img66 6 6 3 =
    [0,0,0,0,0,0, 0,0,0,0,0,0, 0,0,255,255,255,0, 0,0,255,255,255,0, 0,0,255,255,255,0,
     0,0,0,0,0,0]"
  unfolding createEnhancedFloodFillMask_def sp66
  by (simp add: floodFillSeeds_def buf_alloc_def all255
      flood_eval enhancedFloodFill_def pixelColor_def img66_def)

lemma enhancedFloodFill_cap:
  "real (snd (snd (enhancedFloodFill data msk visited protectedZone startX startY width height
      channels tolerance))) < real (width * height) * 0.65 + 1"
proof -
  have "0 \<le> real (width * height) * 0.65" by simp
  then have cap: "real (0::nat) < real (width * height) * 0.65 + 1"
    unfolding of_nat_0 by (rule add_nonneg_pos) simp
  have "case floodLoop data protectedZone width height channels tolerance
          (pixelColor data ((startY * int width + startX) * int channels)) [(startX, startY)] msk
          visited 0 of
        (msk', visited', processed') \<Rightarrow> real processed' < real (width * height) * 0.65 + 1"
    by (rule floodLoop_invariant
        [where P = "\<lambda>m v p. real p < real (width * height) * 0.65 + 1"]) (use cap in auto)
  then show ?thesis
    by (simp add: enhancedFloodFill_def Let_def split: prod.splits)
qed

text \<open>
  Claim C4. As stated the claim fails in its first half: \<open>processedPixels\<close> is a local
  counter of each \<open>enhancedFloodFill\<close> call, so the bound of 65 percent holds for one seed
  at a time (and is passed by less than one pixel, the loop testing it before it absorbs),
  not for all seeds together. What holds, for every image, mask, visited set and seed: one
  seed's fill absorbs fewer than \<open>0.65 * width * height + 1\<close> pixels, each of them new to
  the (finite) visited set; and no pixel inside the protected ellipse is ever absorbed: it
  keeps 255 in the flood-fill mask.
\<close>

theorem flood_fill_cap_per_seed_and_zone_kept:
  "real (snd (snd (enhancedFloodFill data msk visited protectedZone startX startY width
              height channels tolerance))) < 0.65 * real (width * height) + 1
   \<and> (finite visited \<longrightarrow>
        card (fst (snd (enhancedFloodFill data msk visited protectedZone startX startY width
              height channels tolerance)))
          = card visited + snd (snd (enhancedFloodFill data msk visited protectedZone startX startY
              width height channels tolerance)))
   \<and> (\<forall>i. i < width * height
          \<and> (real (i mod width) - real width / 2)\<^sup>2 + (real (i div width) - real height / 2)\<^sup>2
               \<le> (0.25 * real (min width height))\<^sup>2
        \<longrightarrow> createEnhancedFloodFillMask data width height channels ! i = 255)"
proof (intro conjI impI allI)
  show "real (snd (snd (enhancedFloodFill data msk visited protectedZone startX startY width
              height channels tolerance))) < 0.65 * real (width * height) + 1"
    using enhancedFloodFill_cap [of data msk visited protectedZone startX startY width height
        channels tolerance]
    by (simp add: mult.commute)
next
  assume "finite visited"
  then show "card (fst (snd (enhancedFloodFill data msk visited protectedZone startX startY width
              height channels tolerance)))
          = card visited + snd (snd (enhancedFloodFill data msk visited protectedZone startX startY
              width height channels tolerance))"
    using enhancedFloodFill_facts [where visited = visited and data = data and msk = msk
      and protectedZone = protectedZone and startX = startX and startY = startY and width = width
      and height = height and channels = channels and tolerance = tolerance]
    by (auto split: prod.splits)
next
  fix i
  assume "i < width * height
          \<and> (real (i mod width) - real width / 2)\<^sup>2 + (real (i div width) - real height / 2)\<^sup>2
               \<le> (0.25 * real (min width height))\<^sup>2"
  then show "createEnhancedFloodFillMask data width height channels ! i = 255"
    by (intro createEnhancedFloodFillMask_protected) simp_all
qed

theorem flood_fill_cap_per_seed_and_zone_kept_witness:
  "finite ({}::nat set) \<and> (14::nat) < 6 * 6
   \<and> (real (14 mod 6) - real 6 / 2)\<^sup>2 + (real (14 div 6) - real 6 / 2)\<^sup>2
        \<le> (0.25 * real (min 6 6))\<^sup>2
   \<and> snd (snd (enhancedFloodFill img66 (replicate 36 255) {} (createProtectedZone 6 6) 0 0 6 6 3 40))
        = 24
   \<and> real 24 < 0.65 * real (6 * 6) + 1
   \<and> card (fst (snd (enhancedFloodFill img66 (replicate 36 255) {} (createProtectedZone 6 6) 0 0 6 6
        3 40))) = card ({}::nat set) + 24
   \<and> createEnhancedFloodFillMask img66 6 6 3 ! 14 = 255"
  using flood_fill_cap_per_seed_and_zone_kept [where visited = "{}" and width = 6
      and height = 6 and data = img66 and msk = "replicate 36 255"
      and protectedZone = "createProtectedZone 6 6" and startX = 0 and startY = 0 and channels = 3
      and tolerance = 40] seed1_66
  by (simp add: power2_eq_square)

text \<open>
  The counterexample to C4 as stated: on the uniform 6 by 6 image the first corner seed
  absorbs 24 pixels and the last corner seed 3 more, so the mask has 27 zero pixels, 75
  percent of the 36 pixels of the image.
\<close>

theorem flood_fill_exceeds_global_cap:
  "length (filter (\<lambda>v. v = 0) (createEnhancedFloodFillMask img66 6 6 3)) = 27
   \<and> 0.65 * real (6 * 6) < real 27"
  by (simp add: floodmask66)

section \<open>MaskValidator: analyzeMaskStatistics\<close>

text \<open>
  \<open>markConnectedRegion\<close> and \<open>countConnectedRegions\<close> take the grid's width and height as
  numbers: \<open>analyzeMaskStatistics\<close> calls them with the square root of the mask's length.
\<close>

text \<open>Reading a buffer at a number: \<open>undefined\<close> unless the number is an index.\<close>

definition buf_get_real :: "buffer \<Rightarrow> real \<Rightarrow> nat option" where
  "buf_get_real buf idx = (if real_of_int \<lfloor>idx\<rfloor> = idx then buf_get buf \<lfloor>idx\<rfloor> else None)"

text \<open>\<open>visited.has(idx)\<close> for a set that holds indices only.\<close>

definition has_real :: "nat set \<Rightarrow> real \<Rightarrow> bool" where
  "has_real visited idx \<longleftrightarrow> real_of_int \<lfloor>idx\<rfloor> = idx \<and> 0 \<le> idx \<and> nat \<lfloor>idx\<rfloor> \<in> visited"

text \<open>\<open>a % b\<close> for \<open>a \<ge> 0\<close> and \<open>b > 0\<close>.\<close>

definition js_mod :: "real \<Rightarrow> real \<Rightarrow> real" where
  "js_mod a b = a - b * real_of_int \<lfloor>a / b\<rfloor>"

subsection \<open>analyzeMaskStatistics\<close>

definition regionNeighbour :: "buffer \<Rightarrow> nat set \<Rightarrow> real \<Rightarrow> real \<Rightarrow> real \<times> real \<Rightarrow> nat list" where
  "regionNeighbour msk visited width height neighbor =
     (case neighbor of (nx, ny) \<Rightarrow>
        if nx \<ge> 0 \<and> nx < width \<and> ny \<ge> 0 \<and> ny < height
        then (let nIdx = ny * width + nx
              in if buf_get_real msk nIdx = Some 0 \<and> \<not> has_real visited nIdx
                 then [nat \<lfloor>nIdx\<rfloor>] else [])
        else [])"

definition regionNeighbours :: "buffer \<Rightarrow> nat set \<Rightarrow> nat \<Rightarrow> real \<Rightarrow> real \<Rightarrow> nat list" where
  "regionNeighbours msk visited idx width height =
     (let x = js_mod (real idx) width;
          y = real_of_int \<lfloor>real idx / width\<rfloor>;
          neighbors = [(x + 1, y), (x - 1, y), (x, y + 1), (x, y - 1)]
      in concat (map (regionNeighbour msk visited width height) neighbors))"

function markConnectedRegion :: "buffer \<Rightarrow> real \<Rightarrow> real \<Rightarrow> nat list \<Rightarrow> nat set \<Rightarrow> nat set" where
  "markConnectedRegion msk width height [] visited = visited"
| "markConnectedRegion msk width height (idx # queue) visited =
     (if idx \<in> visited then markConnectedRegion msk width height queue visited
      else markConnectedRegion msk width height
             (queue @ regionNeighbours msk (insert idx visited) idx width height)
             (insert idx visited))"
  by pat_completeness auto

lemma regionNeighbour_valid:
  "n \<in> set (regionNeighbour msk visited width height nb) \<Longrightarrow> n < length msk"
  by (cases nb) (auto simp: regionNeighbour_def Let_def buf_get_real_def buf_get_def split: if_splits)

lemma regionNeighbour_length: "length (regionNeighbour msk visited width height nb) \<le> 1"
  by (cases nb) (simp add: regionNeighbour_def Let_def)

lemma regionNeighbours_valid:
  "n \<in> set (regionNeighbours msk visited idx width height) \<Longrightarrow> n < length msk"
  by (auto simp: regionNeighbours_def Let_def dest: regionNeighbour_valid)

lemma regionNeighbours_length:
  "length (regionNeighbours msk visited idx width height) \<le> 4"
proof -
  have "length (regionNeighbour msk visited width height a)
      + (length (regionNeighbour msk visited width height b)
      + (length (regionNeighbour msk visited width height c)
      + length (regionNeighbour msk visited width height d))) \<le> 4"
    for a b c d
    using regionNeighbour_length [of msk visited width height a]
      regionNeighbour_length [of msk visited width height b]
      regionNeighbour_length [of msk visited width height c]
      regionNeighbour_length [of msk visited width height d] by linarith
  then show ?thesis by (simp add: regionNeighbours_def Let_def)
qed

termination markConnectedRegion
proof (relation "measure (\<lambda>(msk, width, height, queue, visited).
      5 * card (({0..<length msk} \<union> set queue) - visited) + length queue)", goal_cases)
  case 1
  then show ?case by simp
next
  case (2 msk width height idx queue visited)
  have "({0..<length msk} \<union> set queue) - visited \<subseteq> ({0..<length msk} \<union> set (idx # queue)) - visited"
    by auto
  then have "card (({0..<length msk} \<union> set queue) - visited)
      \<le> card (({0..<length msk} \<union> set (idx # queue)) - visited)"
    by (intro card_mono) auto
  then show ?case by simp
next
  case (3 msk width height idx queue visited)
  let ?new = "regionNeighbours msk (insert idx visited) idx width height"
  let ?U = "({0..<length msk} \<union> set (idx # queue)) - visited"
  have sub: "({0..<length msk} \<union> set (queue @ ?new)) - insert idx visited \<subseteq> ?U - {idx}"
    using regionNeighbours_valid [of _ msk "insert idx visited" idx width height] by auto
  have fin: "finite ?U" by simp
  have "idx \<in> ?U" using 3 by simp
  then have "card (?U - {idx}) < card ?U" using fin by (intro card_Diff1_less)
  moreover have "card (({0..<length msk} \<union> set (queue @ ?new)) - insert idx visited)
      \<le> card (?U - {idx})"
    using sub fin by (intro card_mono) auto
  ultimately show ?case
    using regionNeighbours_length [of msk "insert idx visited" idx width height] by simp
qed

definition countConnectedRegions :: "buffer \<Rightarrow> real \<Rightarrow> real \<Rightarrow> nat" where
  "countConnectedRegions msk width height =
     snd (foldl (\<lambda>(visited, regions) i.
            if buf_get msk (int i) = Some 0 \<and> i \<notin> visited
            then (markConnectedRegion msk width height [i] visited, regions + 1)
            else (visited, regions))
          ({}, 0) [0..<length msk])"

record maskStatistics =
  removedPercentage :: jsnum
  connectedRegions :: nat

definition js_div :: "real \<Rightarrow> real \<Rightarrow> jsnum" where
  "js_div a b = (if b = 0 then None else Some (a / b))"

definition analyzeMaskStatistics :: "buffer \<Rightarrow> maskStatistics" where
  "analyzeMaskStatistics msk =
     (let removedPixels = foldl (\<lambda>removedPixels i.
             if buf_get msk (int i) = Some 0 then removedPixels + 1 else removedPixels)
           (0::nat) [0..<length msk];
          removedPercentage = map_option (\<lambda>q. q * 100) (js_div (real removedPixels) (real (length msk)));
          connectedRegions = countConnectedRegions msk (sqrt (real (length msk))) (sqrt (real (length msk)))
      in \<lparr>removedPercentage = removedPercentage, connectedRegions = connectedRegions\<rparr>)"


definition mask_8x2 :: buffer where
  "mask_8x2 = [255, 255, 255, 0, 0, 255, 255, 255,
               255, 255, 255, 255, 255, 255, 255, 255]"

declare markConnectedRegion.simps [simp del]

lemma sqrt16: "sqrt 16 = 4"
  using real_sqrt_abs [of 4] by simp

lemmas region_eval = markConnectedRegion.simps regionNeighbours_def regionNeighbour_def js_mod_def
  buf_get_real_def has_real_def buf_get_def

text \<open>
  Claim C6 holds for its \<open>removedPercentage\<close> half, and for square masks; it fails on the
  code for every mask of an image that is not square, because \<open>analyzeMaskStatistics\<close>
  passes \<open>Math.sqrt(mask.length)\<close> as both width and height of the grid to
  \<open>countConnectedRegions\<close>. For the mask of an 8 by 2 image whose only zero pixels are
  (3, 0) and (4, 0), one region of two adjacent pixels, the code labels a 4 by 4 grid, where
  index 3 ends a row and index 4 starts the next, and counts 2 regions. The same routine
  with the true width 8 and height 2 counts 1.
\<close>

theorem analyzeMaskStatistics_nonsquare:
  "connectedRegions (analyzeMaskStatistics mask_8x2) = 2
   \<and> removedPercentage (analyzeMaskStatistics mask_8x2) = Some 12.5
   \<and> countConnectedRegions mask_8x2 8 2 = 1"
  by (simp add: analyzeMaskStatistics_def countConnectedRegions_def mask_8x2_def Let_def js_div_def
      sqrt16 region_eval upt_rec [of 0])

subsection \<open>validateObjectPreservation\<close>


text \<open>
  The window origins are doubles and seldom integers; \<open>y * width + x\<close> is computed in
  doubles and read with \<open>mask[idx]\<close>, which is \<open>undefined\<close> unless the double is an
  integer.
\<close>

definition centerRemoval :: "buffer \<Rightarrow> nat \<Rightarrow> nat \<Rightarrow> nat \<times> nat" where
  "centerRemoval msk width height =
     (let centerSize = fl (real (min width height) * fl 0.3);
          centerX = fl (fl (real width / 2) - fl (centerSize / 2));
          centerY = fl (fl (real height / 2) - fl (centerSize / 2))
      in foldl (\<lambda>counts y.
           foldl (\<lambda>(removedInCenter, totalCenterPixels) x.
              let idx = fl (fl (y * real width) + x)
              in (if buf_get_real msk idx = Some 0 then removedInCenter + 1 else removedInCenter,
                  totalCenterPixels + 1))
             counts (js_range 1 (max 0 centerX) (min (real width) (fl (centerX + centerSize)))))
          (0, 0) (js_range 1 (max 0 centerY) (min (real height) (fl (centerY + centerSize)))))"

function holeLoop ::
    "buffer \<Rightarrow> nat \<Rightarrow> nat \<Rightarrow> (real \<times> real) list \<Rightarrow> nat set \<Rightarrow> nat \<Rightarrow> nat \<times> nat set" where
  "holeLoop msk width height [] visited holeSize = (holeSize, visited)"
| "holeLoop msk width height ((x, y) # queue) visited holeSize =
     (let idx = fl (fl (y * real width) + x) in
      if x < 0 \<or> x \<ge> real width \<or> y < 0 \<or> y \<ge> real height \<or> has_real visited idx
         \<or> buf_get_real msk idx \<noteq> Some 0
      then holeLoop msk width height queue visited holeSize
      else holeLoop msk width height
             (queue @ [(fl (x + 1), y), (fl (x - 1), y), (x, fl (y + 1)), (x, fl (y - 1))])
             (insert (nat \<lfloor>idx\<rfloor>) visited) (holeSize + 1))"
  by pat_completeness auto

lemma buf_get_real_index:
  "buf_get_real buf idx = Some v \<Longrightarrow>
   real_of_int \<lfloor>idx\<rfloor> = idx \<and> 0 \<le> idx \<and> nat \<lfloor>idx\<rfloor> < length buf \<and> buf ! nat \<lfloor>idx\<rfloor> = v"
  by (auto simp: buf_get_real_def buf_get_def split: if_splits)

termination holeLoop
proof (relation "measure (\<lambda>(msk, width, height, queue, visited, holeSize).
      5 * card ({0..<length msk} - visited) + length queue)", goal_cases)
  case 1
  then show ?case by simp
next
  case (2 msk width height x y queue visited holeSize idx)
  then show ?case by simp
next
  case (3 msk width height x y queue visited holeSize idx)
  then have zero: "buf_get_real msk idx = Some 0" and unv: "\<not> has_real visited idx" by auto
  have "nat \<lfloor>idx\<rfloor> < length msk" "nat \<lfloor>idx\<rfloor> \<notin> visited"
    using buf_get_real_index [OF zero] unv by (auto simp: has_real_def)
  then have "card ({0..<length msk} - insert (nat \<lfloor>idx\<rfloor>) visited)
      < card ({0..<length msk} - visited)"
    by (rule card_unvisited_insert)
  then show ?case by simp
qed

definition measureHoleSize ::
    "buffer \<Rightarrow> real \<Rightarrow> real \<Rightarrow> nat \<Rightarrow> nat \<Rightarrow> nat set \<Rightarrow> nat \<times> nat set" where
  "measureHoleSize msk startX startY width height visited =
     holeLoop msk width height [(startX, startY)] visited 0"

fun holeScan :: "buffer \<Rightarrow> nat \<Rightarrow> nat \<Rightarrow> (real \<times> real) list \<Rightarrow> nat set \<Rightarrow> bool" where
  "holeScan msk width height [] visited = False"
| "holeScan msk width height ((x, y) # points) visited =
     (let idx = fl (fl (y * real width) + x) in
      if buf_get_real msk idx = Some 0 \<and> \<not> has_real visited idx
      then (case measureHoleSize msk x y width height visited of
              (holeSize, visited') \<Rightarrow>
                let imageArea = real (width * height);
                    holeRatio = fl (real holeSize / imageArea)
                in if holeRatio > fl 0.05 then True
                   else holeScan msk width height points visited')
      else holeScan msk width height points visited)"

definition checkForProblematicHoles :: "buffer \<Rightarrow> nat \<Rightarrow> nat \<Rightarrow> bool" where
  "checkForProblematicHoles msk width height =
     (let centerSize = fl (real (min width height) * fl 0.25);
          centerX = fl (fl (real width / 2) - fl (centerSize / 2));
          centerY = fl (fl (real height / 2) - fl (centerSize / 2));
          ys = js_range 1 (max 0 centerY) (min (real height) (fl (centerY + centerSize)));
          xs = js_range 1 (max 0 centerX) (min (real width) (fl (centerX + centerSize)))
      in holeScan msk width height (concat (map (\<lambda>y. map (\<lambda>x. (x, y)) xs) ys)) {})"

definition validateObjectPreservation :: "buffer \<Rightarrow> nat \<Rightarrow> nat \<Rightarrow> bool" where
  "validateObjectPreservation msk width height =
     (case centerRemoval msk width height of
        (removedInCenter, totalCenterPixels) \<Rightarrow>
          let centerRemovalRatio =
                (if totalCenterPixels > 0 then fl (real removedInCenter / real totalCenterPixels)
                 else 0)
          in if centerRemovalRatio > fl 0.12 then False
             else if checkForProblematicHoles msk width height then False
             else True)"


subsection \<open>The validator on 6 by 6 masks\<close>

lemma buf_get_real_eval:
  "real_of_int \<lfloor>idx\<rfloor> = idx \<Longrightarrow> 0 \<le> idx \<Longrightarrow> idx < real (length buf) \<Longrightarrow>
   buf_get_real buf idx = Some (buf ! nat \<lfloor>idx\<rfloor>)"
  "real_of_int \<lfloor>idx\<rfloor> \<noteq> idx \<Longrightarrow> buf_get_real buf idx = None"
  "idx < 0 \<Longrightarrow> buf_get_real buf idx = None"
  by (auto simp: buf_get_real_def buf_get_def floor_less_iff)

text \<open>
  The scanned coordinates of the two windows of a 6 by 6 image: the 30 percent window starts
  at the double next to 2.1, the 25 percent window at 2.25.
\<close>

lemma window30_6:
  "js_range 1 (max 0 (fl (fl (real 6 / 2) - fl (fl (real (min 6 6) * fl 0.3) / 2))))
      (min (real 6) (fl (fl (fl (real 6 / 2) - fl (fl (real (min 6 6) * fl 0.3) / 2))
                          + fl (real (min 6 6) * fl 0.3))))
   = [4728779608739021 / 2251799813685248, 6980579422424269 / 2251799813685248]"
  by (simp add: fl_evals js_range_cons js_range_nil)

lemma window25_6:
  "js_range 1 (max 0 (fl (fl (real 6 / 2) - fl (fl (real (min 6 6) * fl 0.25) / 2))))
      (min (real 6) (fl (fl (fl (real 6 / 2) - fl (fl (real (min 6 6) * fl 0.25) / 2))
                          + fl (real (min 6 6) * fl 0.25))))
   = [9 / 4, 13 / 4]"
  by (simp add: fl_evals js_range_cons js_range_nil)

lemma centerRemoval_6:
  "length msk = 36 \<Longrightarrow> centerRemoval msk 6 6 = (0, 4)"
  by (simp add: centerRemoval_def Let_def window30_6 [simplified])
     (simp add: fl_evals buf_get_real_eval)

lemma checkForProblematicHoles_6:
  "length msk = 36 \<Longrightarrow> \<not> checkForProblematicHoles msk 6 6"
  by (simp add: checkForProblematicHoles_def Let_def window25_6 [simplified] del: holeScan.simps)
     (simp add: fl_evals buf_get_real_eval)

lemma validate_6: "length msk = 36 \<Longrightarrow> validateObjectPreservation msk 6 6"
  by (simp add: validateObjectPreservation_def centerRemoval_6 checkForProblematicHoles_6 fl_evals)

text \<open>
  Claim C5 fails on the code. The two windows are scanned from origins that are seldom
  integers (\<open>width / 2 - centerSize / 2\<close>), so \<open>mask[y * width + x]\<close> is \<open>undefined\<close> at
  every scanned point: no pixel counts as removed and no hole is found. For a 6 by 6 image
  the 30 percent window is scanned at 2.1 and 3.1 and the 25 percent window at 2.25 and
  3.25, and the validator accepts every mask, the all-zero mask among them, which removes
  every pixel of both windows and is one 4-connected zero region of 36 pixels.
\<close>

theorem validator_accepts_emptied_centre:
  "validateObjectPreservation (replicate 36 0) 6 6
   \<and> centerRemoval (replicate 36 0) 6 6 = (0, 4)
   \<and> \<not> checkForProblematicHoles (replicate 36 0) 6 6"
  by (simp add: validate_6 centerRemoval_6 checkForProblematicHoles_6)

section \<open>ColorClusterer and BackgroundScorer\<close>













subsection \<open>createColorHistogram and findDominantColors\<close>




subsection \<open>calculateEnhancedBackgroundScore\<close>







section \<open>Compositor\<close>



section \<open>CascadeOrchestrator: the third stage\<close>







section \<open>The third stage on a 6 by 6 image\<close>

text \<open>
  Test images are given pixel by pixel over a uniform image, so that a byte is looked up by
  arithmetic on its index. Each double that occurs is evaluated once, in a lemma of its own.
\<close>

definition uniformImage :: "nat \<Rightarrow> nat \<Rightarrow> nat \<Rightarrow> nat \<Rightarrow> buffer" where
  "uniformImage n r g b = concat (replicate n [r, g, b])"

lemma uniformImage_length [simp]: "length (uniformImage n r g b) = 3 * n"
  by (induction n) (simp_all add: uniformImage_def)


definition img66b :: buffer where
  "img66b = (uniformImage 36 100 0 0)[3 := 126, 4 := 26, 5 := 26]"

lemma img66b_length [simp]: "length img66b = 108"
  by (simp add: img66b_def)


































section \<open>The order and the builder of the third stage\<close>









end
